theory Spec2Isabelle
  imports Complex_Main "HOL-Library.Word"
begin

unbundle bit_operations_syntax

section \<open>Buffers and errors\<close>

text \<open>
  A Node \<open>Buffer\<close> is a sequence of bytes. The length of a buffer is a natural number;
  the indices handed to \<open>Buffer.slice\<close> are integers, because the source computes them
  by subtraction and \<open>slice\<close> gives a negative index a meaning of its own.
\<close>

type_synonym byte = "8 word"
type_synonym buffer = "byte list"

text \<open>
  A JavaScript string is a sequence of 16-bit code units. \<open>js\<close> turns a literal of the
  source into one.
\<close>

type_synonym jsstring = "16 word list"

definition js :: "string \<Rightarrow> jsstring" where
  "js s = map of_char s"

text \<open>Every exception the modelled functions can raise.\<close>

datatype error =
  AssertionError  \<comment> \<open>an \<open>assert(...)\<close> of the source failed\<close>
| TypeError       \<comment> \<open>a value of the wrong type reached a library call\<close>
| RangeError      \<comment> \<open>a buffer size or a read offset is out of range\<close>
| MissingCrypto   \<comment> \<open>\<open>ensure_crypto_installed\<close>: no RSA backend\<close>
| LibraryError    \<comment> \<open>a library primitive (RSA, X.509 parser) rejected its input\<close>

text \<open>
  \<open>Buffer.slice(start, end)\<close>: an index below zero counts from the end, every index is
  clamped to \<open>[0, length]\<close>, and an end before the start gives the empty buffer.
\<close>

definition clamp_index :: "int \<Rightarrow> nat \<Rightarrow> nat" where
  "clamp_index i len = (if i < 0 then nat (max 0 (i + int len)) else min (nat i) len)"

definition slice :: "buffer \<Rightarrow> int \<Rightarrow> int \<Rightarrow> buffer" where
  "slice b start end' =
     (let s = clamp_index start (length b); e = clamp_index end' (length b)
      in take (e - s) (drop s b))"

text \<open>\<open>buffer.slice(start)\<close>: the end defaults to the length.\<close>

definition slice_from :: "buffer \<Rightarrow> int \<Rightarrow> buffer" where
  "slice_from b start = slice b start (int (length b))"


section \<open>Key derivation\<close>

text \<open>
  \<open>crypto.createHmac("SHA1", secret).update(message).digest()\<close> belongs to the runtime,
  not to this repository: it is a parameter \<open>hmac\<close> of the model, applied to the key and the
  message. The one fact about it that the source relies on is that a digest is 20 bytes long.
\<close>

type_synonym hmac_fun = "buffer \<Rightarrow> buffer \<Rightarrow> buffer"

definition digest_size :: "hmac_fun \<Rightarrow> bool" where
  "digest_size hmac = (\<forall>k m. length (hmac k m) = 20)"

definition plus :: "buffer \<Rightarrow> buffer \<Rightarrow> buffer" where
  "plus buf1 buf2 = buf1 @ buf2"

text \<open>
  \<open>makePseudoRandomBuffer\<close>. The array \<open>a\<close> is a map from indices to buffers, \<open>index\<close>
  the next index to write and \<open>p_sha1\<close> the bytes produced so far. The body of the
  \<open>while\<close> loop reads \<open>a[index - 1]\<close>; an index that was never written would hand
  \<open>undefined\<close> to the HMAC, which throws. The loop goes on while
  \<open>p_sha1.length <= minLength\<close>, and nothing in the source bounds the number of rounds: a
  run that never leaves the loop is the value \<open>None\<close>.
\<close>

type_synonym prf_state = "(nat \<rightharpoonup> buffer) \<times> nat \<times> buffer"

partial_function (option) prf_loop ::
  "hmac_fun \<Rightarrow> buffer \<Rightarrow> buffer \<Rightarrow> nat \<Rightarrow> prf_state \<Rightarrow> (error + buffer) option" where
  "prf_loop hmac secret seed minLength st =
     (case st of (a, index, p_sha1) \<Rightarrow>
        if length p_sha1 \<le> minLength then
          (case a (index - 1) of
             None \<Rightarrow> Some (Inl TypeError)
           | Some prev \<Rightarrow>
               let ai = hmac secret prev
               in prf_loop hmac secret seed minLength
                    (a(index \<mapsto> ai), index + 1, plus p_sha1 (hmac secret (plus ai seed))))
        else Some (Inr p_sha1))"

definition makePseudoRandomBuffer ::
  "hmac_fun \<Rightarrow> buffer \<Rightarrow> buffer \<Rightarrow> nat \<Rightarrow> (error + buffer) option" where
  "makePseudoRandomBuffer hmac secret seed minLength =
     (case prf_loop hmac secret seed minLength ([0 \<mapsto> seed], 1, []) of
        None \<Rightarrow> None
      | Some (Inl e) \<Rightarrow> Some (Inl e)
      | Some (Inr p_sha1) \<Rightarrow> Some (Inr (slice p_sha1 0 (int minLength))))"

text \<open>
  The construction as the protocol standard words it, to compare the loop with:
  \<open>A(0) = seed\<close>, \<open>A(n) = HMAC_SHA1(secret, A(n-1))\<close>, output block
  \<open>n = HMAC_SHA1(secret, A(n) ++ seed)\<close> for \<open>n = 1, 2, ...\<close>, and the stream is the
  concatenation of the output blocks. \<open>P_SHA1 hmac secret seed k\<close> is its first \<open>k\<close>
  blocks.
\<close>

primrec A_seq :: "hmac_fun \<Rightarrow> buffer \<Rightarrow> buffer \<Rightarrow> nat \<Rightarrow> buffer" where
  "A_seq hmac secret seed 0 = seed"
| "A_seq hmac secret seed (Suc n) = hmac secret (A_seq hmac secret seed n)"

definition output_block :: "hmac_fun \<Rightarrow> buffer \<Rightarrow> buffer \<Rightarrow> nat \<Rightarrow> buffer" where
  "output_block hmac secret seed n = hmac secret (A_seq hmac secret seed n @ seed)"

primrec P_SHA1 :: "hmac_fun \<Rightarrow> buffer \<Rightarrow> buffer \<Rightarrow> nat \<Rightarrow> buffer" where
  "P_SHA1 hmac secret seed 0 = []"
| "P_SHA1 hmac secret seed (Suc k) =
     P_SHA1 hmac secret seed k @ output_block hmac secret seed (Suc k)"

text \<open>
  A stand-in for the HMAC with the digest size of SHA1, to run the definitions on concrete
  inputs: the first 20 bytes of message, key and zero padding.
\<close>

definition sample_mac :: hmac_fun where
  "sample_mac key message = take 20 (message @ key @ replicate 20 0)"

section \<open>JavaScript values in the option fields\<close>

text \<open>
  The fields of the \<open>options\<close> object and of a key set are dynamically typed: the source
  reads them with \<open>_.isFinite\<close>, \<open>typeof\<close>, \<open>hasOwnProperty\<close>, \<open>||\<close>, \<open>+\<close>, \<open>-\<close>,
  \<open>%\<close> and as indices of \<open>Buffer.slice\<close>, each of which gives a meaning to every value.
  A field holds a primitive value. A number is an integer, \<open>NaN\<close> or one of the two
  infinities; numbers with a fractional part and the rounding of large numbers are not
  modelled.
\<close>

datatype jsnum = Fin int | NaN | PosInf | NegInf

datatype jsval = JUndefined | JNull | JBool bool | JNumber jsnum | JString jsstring

text \<open>
  A property of an object is missing (\<open>None\<close>) or holds a value, which may be
  \<open>undefined\<close>. \<open>hasOwnProperty\<close> tells the two apart; reading the property does not.
\<close>

definition hasOwnProperty :: "jsval option \<Rightarrow> bool" where
  "hasOwnProperty p = (p \<noteq> None)"

definition get_prop :: "jsval option \<Rightarrow> jsval" where
  "get_prop p = (case p of None \<Rightarrow> JUndefined | Some v \<Rightarrow> v)"

text \<open>
  How the runtime reads a string as a number (\<open>Number(s)\<close>, as \<open>+\<close>, \<open>-\<close>, \<open>%\<close>,
  \<open><=\<close> and \<open>slice\<close> do), how it writes a number as a string (as \<open>+\<close> does next to a
  string), which strings \<open>_.isFinite\<close> accepts and what \<open>parseInt\<close> makes of a string
  are parameters of the model.
\<close>

record js_runtime =
  StringToNumber :: "jsstring \<Rightarrow> jsnum"
  NumberToString :: "jsnum \<Rightarrow> jsstring"
  isFinite_string :: "jsstring \<Rightarrow> bool"
  parseInt :: "jsstring \<Rightarrow> jsnum"

definition is_string :: "jsval \<Rightarrow> bool" where
  "is_string v = (case v of JString s \<Rightarrow> True | _ \<Rightarrow> False)"

definition ToNumber :: "js_runtime \<Rightarrow> jsval \<Rightarrow> jsnum" where
  "ToNumber rt v =
     (case v of
        JUndefined \<Rightarrow> NaN
      | JNull \<Rightarrow> Fin 0
      | JBool b \<Rightarrow> Fin (if b then 1 else 0)
      | JNumber n \<Rightarrow> n
      | JString s \<Rightarrow> StringToNumber rt s)"

definition ToString :: "js_runtime \<Rightarrow> jsval \<Rightarrow> jsstring" where
  "ToString rt v =
     (case v of
        JUndefined \<Rightarrow> js ''undefined''
      | JNull \<Rightarrow> js ''null''
      | JBool b \<Rightarrow> js (if b then ''true'' else ''false'')
      | JNumber n \<Rightarrow> NumberToString rt n
      | JString s \<Rightarrow> s)"

text \<open>The values that pass an \<open>assert\<close> or stop an \<open>||\<close>.\<close>

definition ToBoolean :: "jsval \<Rightarrow> bool" where
  "ToBoolean v =
     (case v of
        JUndefined \<Rightarrow> False
      | JNull \<Rightarrow> False
      | JBool b \<Rightarrow> b
      | JNumber n \<Rightarrow> n \<noteq> Fin 0 \<and> n \<noteq> NaN
      | JString s \<Rightarrow> s \<noteq> [])"

text \<open>
  \<open>_.isFinite(v)\<close> of the underscore library is \<open>isFinite(v) && !isNaN(parseFloat(v))\<close>:
  true of a finite number, false of \<open>NaN\<close>, of the infinities, of \<open>undefined\<close>, of
  \<open>null\<close> and of the booleans. A string passes if it reads as a finite number.
\<close>

definition underscore_isFinite :: "js_runtime \<Rightarrow> jsval \<Rightarrow> bool" where
  "underscore_isFinite rt v =
     (case v of
        JNumber n \<Rightarrow> (case n of Fin i \<Rightarrow> True | _ \<Rightarrow> False)
      | JString s \<Rightarrow> isFinite_string rt s
      | _ \<Rightarrow> False)"

text \<open>Arithmetic on numbers: \<open>+\<close>, \<open>-\<close> and the remainder \<open>%\<close>, which has the sign of
  the dividend.\<close>

fun num_add :: "jsnum \<Rightarrow> jsnum \<Rightarrow> jsnum" where
  "num_add (Fin x) (Fin y) = Fin (x + y)"
| "num_add NaN y = NaN"
| "num_add x NaN = NaN"
| "num_add PosInf NegInf = NaN"
| "num_add NegInf PosInf = NaN"
| "num_add PosInf y = PosInf"
| "num_add x PosInf = PosInf"
| "num_add NegInf y = NegInf"
| "num_add x NegInf = NegInf"

definition num_neg :: "jsnum \<Rightarrow> jsnum" where
  "num_neg x = (case x of Fin i \<Rightarrow> Fin (- i) | NaN \<Rightarrow> NaN | PosInf \<Rightarrow> NegInf | NegInf \<Rightarrow> PosInf)"

definition num_sub :: "jsnum \<Rightarrow> jsnum \<Rightarrow> jsnum" where
  "num_sub x y = num_add x (num_neg y)"

fun num_mod :: "jsnum \<Rightarrow> jsnum \<Rightarrow> jsnum" where
  "num_mod (Fin x) (Fin y) = (if y = 0 then NaN else Fin (sgn x * (\<bar>x\<bar> mod \<bar>y\<bar>)))"
| "num_mod (Fin x) PosInf = Fin x"
| "num_mod (Fin x) NegInf = Fin x"
| "num_mod x y = NaN"

text \<open>
  \<open>a + b\<close>: if one side is a string the other is written as a string and the two are
  joined; otherwise both are read as numbers and added.
\<close>

definition js_plus :: "js_runtime \<Rightarrow> jsval \<Rightarrow> jsval \<Rightarrow> jsval" where
  "js_plus rt a b =
     (if is_string a \<or> is_string b then JString (ToString rt a @ ToString rt b)
      else JNumber (num_add (ToNumber rt a) (ToNumber rt b)))"

text \<open>
  \<open>Buffer.slice(start, end)\<close> on values: an index is read as a number, \<open>NaN\<close> counts as
  0, and an \<open>end\<close> that is \<open>undefined\<close> (or not given) is the length.
\<close>

definition adjustOffset :: "jsnum \<Rightarrow> nat \<Rightarrow> nat" where
  "adjustOffset offset len =
     (case offset of Fin i \<Rightarrow> clamp_index i len | NaN \<Rightarrow> 0 | PosInf \<Rightarrow> len | NegInf \<Rightarrow> 0)"

definition Buffer_slice :: "js_runtime \<Rightarrow> buffer \<Rightarrow> jsval \<Rightarrow> jsval \<Rightarrow> buffer" where
  "Buffer_slice rt b start end' =
     (let s = adjustOffset (ToNumber rt start) (length b);
          e = (if end' = JUndefined then length b
               else adjustOffset (ToNumber rt end') (length b))
      in take (e - s) (drop s b))"

text \<open>
  A stand-in for the runtime, to run the definitions on concrete inputs: it reads a string
  as a number if the string is a run of decimal digits, writes an integer in decimal, and
  its \<open>parseInt\<close> reads the decimal digits a string starts with.
\<close>

fun decimal :: "nat \<Rightarrow> jsstring" where
  "decimal n = (if n < 10 then [of_nat (48 + n)] else decimal (n div 10) @ [of_nat (48 + n mod 10)])"

declare decimal.simps [simp del]

definition is_digits :: "jsstring \<Rightarrow> bool" where
  "is_digits s = (s \<noteq> [] \<and> list_all (\<lambda>c. 48 \<le> c \<and> c \<le> 57) s)"

definition decimal_value :: "jsstring \<Rightarrow> nat" where
  "decimal_value s = fold (\<lambda>c acc. 10 * acc + (unat c - 48)) s 0"

definition decimal_runtime :: js_runtime where
  "decimal_runtime =
     \<lparr>StringToNumber = (\<lambda>s. if is_digits s then Fin (int (decimal_value s)) else NaN),
      NumberToString = (\<lambda>n. case n of
          Fin i \<Rightarrow> if i < 0 then js ''-'' @ decimal (nat (- i)) else decimal (nat i)
        | NaN \<Rightarrow> js ''NaN''
        | PosInf \<Rightarrow> js ''Infinity''
        | NegInf \<Rightarrow> js ''-Infinity''),
      isFinite_string = is_digits,
      parseInt = (\<lambda>s. let d = takeWhile (\<lambda>c. 48 \<le> c \<and> c \<le> 57) s
                      in if d = [] then NaN else Fin (int (decimal_value d)))\<rparr>"


section \<open>Derived key sets\<close>

text \<open>
  The \<open>options\<close> object of \<open>computeDerivedKeys\<close>: five properties, each missing or
  holding a value.
\<close>

record key_options =
  signingKeyLength :: "jsval option"
  encryptingKeyLength :: "jsval option"
  encryptingBlockSize :: "jsval option"
  signatureLength :: "jsval option"
  algorithm :: "jsval option"

text \<open>
  A key set has the same five properties and the three keys; the functions that use a key
  set take any object of that shape, not only one made by \<open>computeDerivedKeys\<close>.
\<close>

record derived_keys = key_options +
  signingKey :: buffer
  encryptingKey :: buffer
  initializationVector :: buffer

text \<open>
  \<open>makePseudoRandomBuffer\<close> as \<open>computeDerivedKeys\<close> calls it: \<open>minLength\<close> is
  whatever the two additions gave. Both \<open>p_sha1.length <= minLength\<close> and \<open>slice\<close> read
  it as a number. A non-negative integer is the case modelled above. Below zero and with
  \<open>NaN\<close> the comparison is false at once, the loop is not entered and the slice of the
  empty buffer is empty. With \<open>Infinity\<close> the comparison is never false and the loop is
  never left.
\<close>

definition makePseudoRandomBuffer_value ::
  "js_runtime \<Rightarrow> hmac_fun \<Rightarrow> buffer \<Rightarrow> buffer \<Rightarrow> jsval \<Rightarrow> (error + buffer) option" where
  "makePseudoRandomBuffer_value rt hmac secret seed minLength =
     (case ToNumber rt minLength of
        Fin n \<Rightarrow> if 0 \<le> n then makePseudoRandomBuffer hmac secret seed (nat n)
                 else Some (Inr [])
      | NaN \<Rightarrow> Some (Inr [])
      | NegInf \<Rightarrow> Some (Inr [])
      | PosInf \<Rightarrow> None)"

text \<open>
  \<open>computeDerivedKeys\<close>. The four asserts come first, in the order of the source: they
  test \<open>signatureLength\<close>, \<open>encryptingKeyLength\<close>, \<open>encryptingBlockSize\<close> and the type
  of \<open>algorithm\<close>. The offsets are computed with \<open>+\<close> from the option values as they are,
  and the object returned holds the three slices and the five option values.
\<close>

definition computeDerivedKeys ::
  "js_runtime \<Rightarrow> hmac_fun \<Rightarrow> buffer \<Rightarrow> buffer \<Rightarrow> key_options \<Rightarrow> (error + derived_keys) option" where
  "computeDerivedKeys rt hmac secret seed options =
     (if \<not> underscore_isFinite rt (get_prop (signatureLength options)) then Some (Inl AssertionError)
      else if \<not> underscore_isFinite rt (get_prop (encryptingKeyLength options)) then Some (Inl AssertionError)
      else if \<not> underscore_isFinite rt (get_prop (encryptingBlockSize options)) then Some (Inl AssertionError)
      else if \<not> is_string (get_prop (algorithm options)) then Some (Inl AssertionError)
      else
        let offset1 = get_prop (signingKeyLength options);
            offset2 = js_plus rt offset1 (get_prop (encryptingKeyLength options));
            offset3 = js_plus rt offset2 (get_prop (encryptingBlockSize options));
            minLength = offset3
        in (case makePseudoRandomBuffer_value rt hmac secret seed minLength of
              None \<Rightarrow> None
            | Some (Inl e) \<Rightarrow> Some (Inl e)
            | Some (Inr buf) \<Rightarrow>
                Some (Inr
                  \<lparr>signingKeyLength = Some (get_prop (signingKeyLength options)),
                   encryptingKeyLength = Some (get_prop (encryptingKeyLength options)),
                   encryptingBlockSize = Some (get_prop (encryptingBlockSize options)),
                   signatureLength = Some (get_prop (signatureLength options)),
                   algorithm = Some (get_prop (algorithm options)),
                   signingKey = Buffer_slice rt buf (JNumber (Fin 0)) offset1,
                   encryptingKey = Buffer_slice rt buf offset1 offset2,
                   initializationVector = Buffer_slice rt buf offset2 offset3\<rparr>)))"

text \<open>
  Options for 2-byte keys and a 1-byte initialisation vector, and variations of them: an
  algorithm that is not an AES-CBC name, no \<open>signatureLength\<close>, an algorithm that is not
  a string, and a negative key length.
\<close>

definition sample_options :: key_options where
  "sample_options =
     \<lparr>signingKeyLength = Some (JNumber (Fin 2)), encryptingKeyLength = Some (JNumber (Fin 2)),
      encryptingBlockSize = Some (JNumber (Fin 1)), signatureLength = Some (JNumber (Fin 20)),
      algorithm = Some (JString (js ''aes-128-cbc''))\<rparr>"

definition des_options :: key_options where
  "des_options = sample_options\<lparr>algorithm := Some (JString (js ''des''))\<rparr>"

definition no_signatureLength_options :: key_options where
  "no_signatureLength_options = sample_options\<lparr>signatureLength := None\<rparr>"

definition no_algorithm_options :: key_options where
  "no_algorithm_options = sample_options\<lparr>algorithm := None\<rparr>"

definition negative_length_options :: key_options where
  "negative_length_options = sample_options\<lparr>signingKeyLength := Some (JNumber (Fin (- 1)))\<rparr>"


section \<open>Symmetric channel protection\<close>

text \<open>
  \<open>computePaddingFooter\<close>. The assert needs the key set to have the property
  \<open>encryptingBlockSize\<close>, whatever it holds. \<open>-\<close> and \<open>%\<close> read the property as
  a number. \<open>new Buffer(size)\<close> rejects \<open>NaN\<close> (a block size of 0 or \<open>undefined\<close>
  gives it, and \<open>NaN + 1\<close> is \<open>NaN\<close>), a negative size and an infinite one.
  \<open>padding.fill(paddingSize)\<close> stores the value in bytes, that is modulo 256.
\<close>

definition computePaddingFooter :: "js_runtime \<Rightarrow> buffer \<Rightarrow> derived_keys \<Rightarrow> error + buffer" where
  "computePaddingFooter rt buffer derivedKeys =
     (if \<not> hasOwnProperty (encryptingBlockSize derivedKeys) then Inl AssertionError
      else
        let blockSize = ToNumber rt (get_prop (encryptingBlockSize derivedKeys));
            paddingSize = num_sub blockSize (num_mod (Fin (int (length buffer) + 1)) blockSize)
        in (case paddingSize of
              Fin n \<Rightarrow>
                if n + 1 < 0 then Inl RangeError
                else Inr (replicate (nat (n + 1)) (of_int n))
            | _ \<Rightarrow> Inl RangeError))"

definition reduceLength :: "buffer \<Rightarrow> nat \<Rightarrow> buffer" where
  "reduceLength buffer byte_to_remove =
     slice buffer 0 (int (length buffer) - int byte_to_remove)"

text \<open>
  \<open>removePadding\<close>: \<open>buffer.readUInt8(buffer.length - 1)\<close> is out of range on the empty
  buffer.
\<close>

definition removePadding :: "buffer \<Rightarrow> error + buffer" where
  "removePadding buffer =
     (if buffer = [] then Inl RangeError
      else let nbPaddingBytes = unat (last buffer) + 1
           in Inr (reduceLength buffer nbPaddingBytes))"

text \<open>
  \<open>derivedKeys_algorithm\<close>: the key set must have the property; a falsy value in it
  (\<open>undefined\<close>, \<open>null\<close>, \<open>false\<close>, \<open>0\<close>, \<open>NaN\<close>, the empty string) is replaced by
  the default before the name is compared, with \<open>===\<close>, to the two names.
\<close>

definition derivedKeys_algorithm :: "derived_keys \<Rightarrow> error + jsstring" where
  "derivedKeys_algorithm derivedKeys =
     (if \<not> hasOwnProperty (algorithm derivedKeys) then Inl AssertionError
      else let algorithm' =
                 (if ToBoolean (get_prop (algorithm derivedKeys)) then get_prop (algorithm derivedKeys)
                  else JString (js ''aes-128-cbc''))
           in if algorithm' = JString (js ''aes-128-cbc'') \<or> algorithm' = JString (js ''aes-256-cbc'')
              then (case algorithm' of JString s \<Rightarrow> Inr s | _ \<Rightarrow> Inl AssertionError)
              else Inl AssertionError)"

text \<open>
  The block cipher (\<open>crypto.createCipheriv\<close>, \<open>createDecipheriv\<close> with automatic padding
  off) is a parameter: it is given the algorithm name, the key, the initialisation vector
  and the data.
\<close>

type_synonym cipher_fun = "jsstring \<Rightarrow> buffer \<Rightarrow> buffer \<Rightarrow> buffer \<Rightarrow> error + buffer"

text \<open>A stand-in cipher, which leaves the data as they are.\<close>

definition null_cipher :: cipher_fun where
  "null_cipher algorithm' key iv data = Inr data"

definition encryptBufferWithDerivedKeys ::
  "cipher_fun \<Rightarrow> buffer \<Rightarrow> derived_keys \<Rightarrow> error + buffer" where
  "encryptBufferWithDerivedKeys cypher buffer derivedKeys =
     (case derivedKeys_algorithm derivedKeys of
        Inl e \<Rightarrow> Inl e
      | Inr algorithm' \<Rightarrow>
          cypher algorithm' (encryptingKey derivedKeys) (initializationVector derivedKeys) buffer)"

definition decryptBufferWithDerivedKeys ::
  "cipher_fun \<Rightarrow> buffer \<Rightarrow> derived_keys \<Rightarrow> error + buffer" where
  "decryptBufferWithDerivedKeys cypher buffer derivedKeys =
     (case derivedKeys_algorithm derivedKeys of
        Inl e \<Rightarrow> Inl e
      | Inr algorithm' \<Rightarrow>
          cypher algorithm' (encryptingKey derivedKeys) (initializationVector derivedKeys) buffer)"

text \<open>
  \<open>makeMessageChunkSignatureWithDerivedKeys\<close>. The last assert of the source is
  \<open>assert(signature.length = derivedKeys.signatureLength)\<close>, with a single \<open>=\<close>: an
  assignment, whose value is its right-hand side. The assert therefore fails exactly when
  \<open>signatureLength\<close> is falsy (missing, \<open>undefined\<close>, 0, ...). The length of a buffer
  is read-only, the assignment leaves the digest as it is, and the digest is returned.
\<close>

definition makeMessageChunkSignatureWithDerivedKeys ::
  "hmac_fun \<Rightarrow> buffer \<Rightarrow> derived_keys \<Rightarrow> error + buffer" where
  "makeMessageChunkSignatureWithDerivedKeys hmac message derivedKeys =
     (let signature = hmac (signingKey derivedKeys) message
      in if ToBoolean (get_prop (signatureLength derivedKeys)) then Inr signature
         else Inl AssertionError)"

text \<open>\<open>buffer.toString("hex")\<close>: two lower-case hexadecimal digits for each byte.\<close>

definition hex_digit :: "nat \<Rightarrow> char" where
  "hex_digit n = ''0123456789abcdef'' ! n"

definition toString_hex :: "buffer \<Rightarrow> string" where
  "toString_hex b = concat (map (\<lambda>x. [hex_digit (unat x div 16), hex_digit (unat x mod 16)]) b)"

text \<open>
  \<open>verifyChunkSignatureWithDerivedKeys\<close>. The index \<open>chunk.length -
  derivedKeys.signatureLength\<close> is a number (\<open>NaN\<close> if \<open>signatureLength\<close> is
  \<open>undefined\<close>); the message is the chunk before it and the signature the chunk from it
  on. The signature is recomputed by the function above (with its assert) and the two are
  compared as hexadecimal strings.
\<close>

definition verifyChunkSignatureWithDerivedKeys ::
  "js_runtime \<Rightarrow> hmac_fun \<Rightarrow> buffer \<Rightarrow> derived_keys \<Rightarrow> error + bool" where
  "verifyChunkSignatureWithDerivedKeys rt hmac chunk derivedKeys =
     (let index = JNumber (num_sub (Fin (int (length chunk)))
                            (ToNumber rt (get_prop (signatureLength derivedKeys))));
          message = Buffer_slice rt chunk (JNumber (Fin 0)) index;
          signature = Buffer_slice rt chunk index JUndefined
      in case makeMessageChunkSignatureWithDerivedKeys hmac message derivedKeys of
           Inl e \<Rightarrow> Inl e
         | Inr verif \<Rightarrow> Inr (toString_hex verif = toString_hex signature))"

text \<open>
  A key set with the parameters of AES-128-CBC and SHA1 signatures, one with a block size
  that does not fit a byte, and one that announces 32-byte signatures.
\<close>

definition sample_keys :: derived_keys where
  "sample_keys =
     \<lparr>signingKeyLength = Some (JNumber (Fin 2)), encryptingKeyLength = Some (JNumber (Fin 2)),
      encryptingBlockSize = Some (JNumber (Fin 16)), signatureLength = Some (JNumber (Fin 20)),
      algorithm = Some (JString (js ''aes-128-cbc'')),
      signingKey = [1, 2], encryptingKey = [3, 7], initializationVector = [8]\<rparr>"

definition wide_block_keys :: derived_keys where
  "wide_block_keys = sample_keys\<lparr>encryptingBlockSize := Some (JNumber (Fin 512))\<rparr>"

definition long_signature_keys :: derived_keys where
  "long_signature_keys = sample_keys\<lparr>signatureLength := Some (JNumber (Fin 32))\<rparr>"

text \<open>Changing one bit of a buffer: bit \<open>i mod 8\<close> of byte \<open>i div 8\<close>.\<close>

definition flip_bit :: "nat \<Rightarrow> buffer \<Rightarrow> buffer" where
  "flip_bit i b = b[i div 8 := (b ! (i div 8)) XOR push_bit (i mod 8) 1]"

section \<open>Chunked RSA encryption\<close>

text \<open>
  The RSA primitives \<open>publicEncrypt\<close> and \<open>privateDecrypt\<close> are the backend chosen when the
  module is loaded (the runtime's own or \<open>ursa\<close>); they are parameters of the model, applied
  to the block, the key in PEM text and the padding scheme, and \<open>isFullySupported\<close> tells
  whether a backend was found. The padding scheme is one of the two constants the asserts
  of the source admit, or is left out (\<open>None\<close>), in which case \<open>RSA_PKCS1_PADDING\<close> is
  taken.
\<close>

datatype rsa_padding = RSA_PKCS1_PADDING | RSA_PKCS1_OAEP_PADDING

type_synonym rsa_fun = "buffer \<Rightarrow> jsstring \<Rightarrow> rsa_padding \<Rightarrow> error + buffer"

definition default_padding :: "rsa_padding option \<Rightarrow> rsa_padding" where
  "default_padding algorithm' = (case algorithm' of None \<Rightarrow> RSA_PKCS1_PADDING | Some a \<Rightarrow> a)"

definition ensure_crypto_installed :: "bool \<Rightarrow> error + bool" where
  "ensure_crypto_installed isFullySupported =
     (if \<not> isFullySupported then Inl MissingCrypto else Inr True)"

text \<open>
  \<open>source.copy(target, targetStart)\<close> writes the source over the target from
  \<open>targetStart\<close> on, as far as the target reaches; the target keeps its length. The model
  returns the target after the call.
\<close>

definition buffer_copy :: "buffer \<Rightarrow> buffer \<Rightarrow> nat \<Rightarrow> buffer" where
  "buffer_copy source target targetStart =
     (if targetStart \<ge> length target then target
      else take (length target)
             (take targetStart target @ source @ drop (targetStart + length source) target))"

text \<open>\<open>new Buffer(size)\<close>: a buffer of \<open>size\<close> bytes, here zero.\<close>

definition new_Buffer :: "nat \<Rightarrow> buffer" where
  "new_Buffer size' = replicate size' 0"

text \<open>\<open>Math.ceil(a / b)\<close> for a count \<open>a\<close> and a positive \<open>b\<close>.\<close>

definition ceil_div :: "nat \<Rightarrow> nat \<Rightarrow> nat" where
  "ceil_div a b = (a + b - 1) div b"

text \<open>
  The \<open>for\<close> loop of \<open>publicEncrypt_long\<close>, from \<open>i\<close> on: each chunk of \<open>chunk_size\<close>
  bytes of the buffer is encrypted, the assert wants the result to be \<open>block_size\<close> bytes
  long, and the result is copied to its place in the output buffer.
\<close>

function publicEncrypt_loop ::
  "rsa_fun \<Rightarrow> buffer \<Rightarrow> jsstring \<Rightarrow> nat \<Rightarrow> nat \<Rightarrow> rsa_padding \<Rightarrow> nat \<Rightarrow> nat \<Rightarrow> buffer
     \<Rightarrow> error + buffer" where
  "publicEncrypt_loop publicEncrypt buffer key block_size chunk_size algorithm' nbBlocks i outputBuffer =
     (if i < nbBlocks then
        let currentBlock = slice buffer (int (chunk_size * i)) (int (chunk_size * (i + 1)))
        in (case publicEncrypt currentBlock key algorithm' of
              Inl e \<Rightarrow> Inl e
            | Inr encrypted_chunk \<Rightarrow>
                if length encrypted_chunk \<noteq> block_size then Inl AssertionError
                else publicEncrypt_loop publicEncrypt buffer key block_size chunk_size algorithm'
                       nbBlocks (i + 1) (buffer_copy encrypted_chunk outputBuffer (i * block_size)))
      else Inr outputBuffer)"
  by pat_completeness auto
termination
  by (relation "measure (\<lambda>(pe, b, k, bs, cs, a, nbBlocks, i, out). nbBlocks - i)") auto

declare publicEncrypt_loop.simps [simp del]

text \<open>
  \<open>publicEncrypt_long\<close>. \<open>chunk_size\<close> is \<open>block_size - padding\<close>. When it is positive
  there are \<open>ceil(buffer.length / chunk_size)\<close> blocks. When it is zero the quotient is
  infinite or not a number, and so is the size of the output buffer, which \<open>new Buffer\<close>
  rejects. When it is negative the number of blocks is zero or negative: the loop is not
  entered, and the output buffer is empty if its size \<open>nbBlocks * block_size\<close> is zero and
  is rejected if it is negative.
\<close>

definition publicEncrypt_long ::
  "bool \<Rightarrow> rsa_fun \<Rightarrow> buffer \<Rightarrow> jsstring \<Rightarrow> nat \<Rightarrow> nat \<Rightarrow> rsa_padding option \<Rightarrow> error + buffer" where
  "publicEncrypt_long isFullySupported publicEncrypt buffer key block_size padding algorithm' =
     (case ensure_crypto_installed isFullySupported of
        Inl e \<Rightarrow> Inl e
      | Inr ok \<Rightarrow>
          if block_size = padding then Inl RangeError
          else if block_size < padding then
            (if (length buffer div (padding - block_size)) * block_size = 0 then Inr []
             else Inl RangeError)
          else
            let chunk_size = block_size - padding;
                nbBlocks = ceil_div (length buffer) chunk_size;
                outputBuffer = new_Buffer (nbBlocks * block_size)
            in publicEncrypt_loop publicEncrypt buffer key block_size chunk_size
                 (default_padding algorithm') nbBlocks 0 outputBuffer)"

text \<open>
  The loop of \<open>privateDecrypt_long\<close>, from \<open>i\<close> on, with the output buffer and
  \<open>total_length\<close> as its state: each block of at most \<open>block_size\<close> bytes is decrypted
  and copied behind what has been written so far.
\<close>

function privateDecrypt_loop ::
  "rsa_fun \<Rightarrow> buffer \<Rightarrow> jsstring \<Rightarrow> nat \<Rightarrow> rsa_padding \<Rightarrow> nat \<Rightarrow> nat \<Rightarrow> buffer \<times> nat
     \<Rightarrow> error + buffer \<times> nat" where
  "privateDecrypt_loop privateDecrypt buffer key block_size algorithm' nbBlocks i st =
     (case st of (outputBuffer, total_length) \<Rightarrow>
        if i < nbBlocks then
          let currentBlock = slice buffer (int (block_size * i))
                               (int (min (block_size * (i + 1)) (length buffer)))
          in (case privateDecrypt currentBlock key algorithm' of
                Inl e \<Rightarrow> Inl e
              | Inr decrypted_buf \<Rightarrow>
                  privateDecrypt_loop privateDecrypt buffer key block_size algorithm' nbBlocks (i + 1)
                    (buffer_copy decrypted_buf outputBuffer total_length,
                     total_length + length decrypted_buf))
        else Inr (outputBuffer, total_length))"
  by pat_completeness auto
termination
  by (relation "measure (\<lambda>(pd, b, k, bs, a, nbBlocks, i, st). nbBlocks - i)") auto

declare privateDecrypt_loop.simps [simp del]

text \<open>
  \<open>privateDecrypt_long\<close>. With a block size of zero the number of blocks is infinite or
  not a number and the output buffer cannot be made.
\<close>

definition privateDecrypt_long ::
  "bool \<Rightarrow> rsa_fun \<Rightarrow> buffer \<Rightarrow> jsstring \<Rightarrow> nat \<Rightarrow> rsa_padding option \<Rightarrow> error + buffer" where
  "privateDecrypt_long isFullySupported privateDecrypt buffer key block_size algorithm' =
     (case ensure_crypto_installed isFullySupported of
        Inl e \<Rightarrow> Inl e
      | Inr ok \<Rightarrow>
          if block_size = 0 then Inl RangeError
          else
            let nbBlocks = ceil_div (length buffer) block_size;
                outputBuffer = new_Buffer (nbBlocks * block_size)
            in (case privateDecrypt_loop privateDecrypt buffer key block_size
                       (default_padding algorithm') nbBlocks 0 (outputBuffer, 0) of
                  Inl e \<Rightarrow> Inl e
                | Inr (outputBuffer', total_length) \<Rightarrow>
                    Inr (slice outputBuffer' 0 (int total_length))))"

text \<open>
  The plaintext chunks and the ciphertext blocks that the two loops cut: chunk or block
  \<open>i\<close> is the slice from \<open>size * i\<close> to \<open>size * (i + 1)\<close>, for \<open>i\<close> below the number of
  blocks.
\<close>

definition chunks :: "nat \<Rightarrow> buffer \<Rightarrow> buffer list" where
  "chunks size' buffer =
     map (\<lambda>i. slice buffer (int (size' * i)) (int (size' * (i + 1))))
       [0..<ceil_div (length buffer) size']"

text \<open>
  A matching key pair, for blocks of \<open>block_size\<close> bytes and a padding overhead of
  \<open>padding\<close> bytes: every plaintext of at most \<open>block_size - padding\<close> bytes encrypts to
  a block of \<open>block_size\<close> bytes, which decrypts to the plaintext.
\<close>

definition matching_keys ::
  "rsa_fun \<Rightarrow> rsa_fun \<Rightarrow> jsstring \<Rightarrow> jsstring \<Rightarrow> nat \<Rightarrow> nat \<Rightarrow> rsa_padding \<Rightarrow> bool" where
  "matching_keys publicEncrypt privateDecrypt pub priv block_size padding algorithm' =
     (\<forall>p. length p \<le> block_size - padding \<longrightarrow>
        (\<exists>c. publicEncrypt p pub algorithm' = Inr c \<and> length c = block_size
           \<and> privateDecrypt c priv algorithm' = Inr p))"

text \<open>
  A stand-in key pair for blocks of 4 bytes with an overhead of 2: encryption puts the
  length of the plaintext in front and fills up with zeros, decryption reads it back.
\<close>

definition sample_encrypt :: rsa_fun where
  "sample_encrypt p key algorithm' =
     (if length p \<le> 2 then Inr (of_nat (length p) # p @ replicate (3 - length p) 0)
      else Inl LibraryError)"

definition sample_decrypt :: rsa_fun where
  "sample_decrypt c key algorithm' =
     (case c of
        n # rest \<Rightarrow> if length c = 4 \<and> unat n \<le> 2 then Inr (take (unat n) rest) else Inl LibraryError
      | [] \<Rightarrow> Inl LibraryError)"

section \<open>PEM text\<close>

subsection \<open>The runtime's conversions between buffers and strings\<close>

text \<open>
  \<open>buffer.toString("utf8")\<close>, \<open>new Buffer(string)\<close>, \<open>buffer.toString("base64")\<close> and
  \<open>new Buffer(string, "base64")\<close> belong to the runtime. They are modelled from the
  standards the runtime follows: the UTF-8 decoder of the Encoding standard, which
  replaces every ill-formed sequence by U+FFFD, and RFC 4648.

  \<open>utf8_lead\<close> is the decoder's step on a byte when no sequence is open: what it emits,
  and the code point so far, the number of bytes still needed and the bounds for the next
  byte.
\<close>

definition utf8_lead :: "nat \<Rightarrow> nat list \<times> nat \<times> nat \<times> nat \<times> nat" where
  "utf8_lead b =
     (if b \<le> 0x7F then ([b], 0, 0, 0x80, 0xBF)
      else if 0xC2 \<le> b \<and> b \<le> 0xDF then ([], b mod 32, 1, 0x80, 0xBF)
      else if 0xE0 \<le> b \<and> b \<le> 0xEF then
        ([], b mod 16, 2, if b = 0xE0 then 0xA0 else 0x80, if b = 0xED then 0x9F else 0xBF)
      else if 0xF0 \<le> b \<and> b \<le> 0xF4 then
        ([], b mod 8, 3, if b = 0xF0 then 0x90 else 0x80, if b = 0xF4 then 0x8F else 0xBF)
      else ([0xFFFD], 0, 0, 0x80, 0xBF))"

fun utf8_decode :: "nat \<Rightarrow> nat \<Rightarrow> nat \<Rightarrow> nat \<Rightarrow> nat list \<Rightarrow> nat list" where
  "utf8_decode cp needed lower upper [] = (if needed = 0 then [] else [0xFFFD])"
| "utf8_decode cp needed lower upper (b # bs) =
     (if needed = 0 then
        (case utf8_lead b of (out, cp', needed', lower', upper') \<Rightarrow>
           out @ utf8_decode cp' needed' lower' upper' bs)
      else if lower \<le> b \<and> b \<le> upper then
        (if needed = 1 then (cp * 64 + b mod 64) # utf8_decode 0 0 0x80 0xBF bs
         else utf8_decode (cp * 64 + b mod 64) (needed - 1) 0x80 0xBF bs)
      else
        (case utf8_lead b of (out, cp', needed', lower', upper') \<Rightarrow>
           0xFFFD # out @ utf8_decode cp' needed' lower' upper' bs))"

text \<open>A code point as UTF-16 code units: itself, or a surrogate pair.\<close>

definition utf16_units :: "nat \<Rightarrow> jsstring" where
  "utf16_units cp =
     (if cp < 0x10000 then [of_nat cp]
      else [of_nat (0xD800 + (cp - 0x10000) div 1024), of_nat (0xDC00 + (cp - 0x10000) mod 1024)])"

definition toString_utf8 :: "buffer \<Rightarrow> jsstring" where
  "toString_utf8 b = concat (map utf16_units (utf8_decode 0 0 0x80 0xBF (map unat b)))"

text \<open>
  \<open>new Buffer(string)\<close>: the UTF-8 encoding of the string; a surrogate pair is one code
  point, a surrogate on its own is encoded as U+FFFD.
\<close>

definition utf8_bytes :: "nat \<Rightarrow> buffer" where
  "utf8_bytes cp =
     (if cp < 0x80 then [of_nat cp]
      else if cp < 0x800 then [of_nat (0xC0 + cp div 64), of_nat (0x80 + cp mod 64)]
      else if cp < 0x10000 then
        [of_nat (0xE0 + cp div 4096), of_nat (0x80 + cp div 64 mod 64), of_nat (0x80 + cp mod 64)]
      else [of_nat (0xF0 + cp div 262144), of_nat (0x80 + cp div 4096 mod 64),
            of_nat (0x80 + cp div 64 mod 64), of_nat (0x80 + cp mod 64)])"

fun utf8_encode :: "nat list \<Rightarrow> buffer" where
  "utf8_encode [] = []"
| "utf8_encode [u] = (if 0xD800 \<le> u \<and> u \<le> 0xDFFF then utf8_bytes 0xFFFD else utf8_bytes u)"
| "utf8_encode (u # v # us) =
     (if 0xD800 \<le> u \<and> u \<le> 0xDBFF \<and> 0xDC00 \<le> v \<and> v \<le> 0xDFFF then
        utf8_bytes (0x10000 + (u - 0xD800) * 1024 + (v - 0xDC00)) @ utf8_encode us
      else if 0xD800 \<le> u \<and> u \<le> 0xDFFF then utf8_bytes 0xFFFD @ utf8_encode (v # us)
      else utf8_bytes u @ utf8_encode (v # us))"

definition Buffer_from_utf8 :: "jsstring \<Rightarrow> buffer" where
  "Buffer_from_utf8 s = utf8_encode (map unat s)"

text \<open>
  Base64. \<open>b64_char\<close> is the character of a six-bit value, \<open>b64_value\<close> the value of a
  character: the decoder also accepts \<open>-\<close> and \<open>_\<close> of the URL-safe alphabet.
\<close>

definition b64_char :: "nat \<Rightarrow> 16 word" where
  "b64_char n =
     (if n < 26 then of_nat (65 + n)
      else if n < 52 then of_nat (71 + n)
      else if n < 62 then of_nat (n - 4)
      else if n = 62 then 43 else 47)"

definition b64_value :: "16 word \<Rightarrow> nat option" where
  "b64_value c =
     (let x = unat c in
      if 65 \<le> x \<and> x \<le> 90 then Some (x - 65)
      else if 97 \<le> x \<and> x \<le> 122 then Some (x - 71)
      else if 48 \<le> x \<and> x \<le> 57 then Some (x + 4)
      else if x = 43 \<or> x = 45 then Some 62
      else if x = 47 \<or> x = 95 then Some 63
      else None)"

text \<open>
  \<open>buffer.toString("base64")\<close>: four characters for every three bytes, the last group
  filled up with \<open>=\<close>.
\<close>

fun toString_base64 :: "buffer \<Rightarrow> jsstring" where
  "toString_base64 (x # y # z # bs) =
     [b64_char (unat x div 4), b64_char (unat x mod 4 * 16 + unat y div 16),
      b64_char (unat y mod 16 * 4 + unat z div 64), b64_char (unat z mod 64)]
     @ toString_base64 bs"
| "toString_base64 [x, y] =
     [b64_char (unat x div 4), b64_char (unat x mod 4 * 16 + unat y div 16),
      b64_char (unat y mod 16 * 4), 61]"
| "toString_base64 [x] = [b64_char (unat x div 4), b64_char (unat x mod 4 * 16), 61, 61]"
| "toString_base64 [] = []"

text \<open>
  \<open>new Buffer(string, "base64")\<close>: the decoder skips every character that has no value,
  stops at the first \<open>=\<close>, and turns each group of four values into three bytes; two or
  three values left over give one or two bytes.
\<close>

fun b64_bytes :: "nat list \<Rightarrow> buffer" where
  "b64_bytes (a # b # c # d # vs) =
     [of_nat (a * 4 + b div 16), of_nat (b mod 16 * 16 + c div 4), of_nat (c mod 4 * 64 + d)]
     @ b64_bytes vs"
| "b64_bytes [a, b, c] = [of_nat (a * 4 + b div 16), of_nat (b mod 16 * 16 + c div 4)]"
| "b64_bytes [a, b] = [of_nat (a * 4 + b div 16)]"
| "b64_bytes [a] = []"
| "b64_bytes [] = []"

definition Buffer_from_base64 :: "jsstring \<Rightarrow> buffer" where
  "Buffer_from_base64 s =
     b64_bytes (List.map_filter b64_value (takeWhile (\<lambda>c. c \<noteq> 61) s))"

subsection \<open>The regular expression\<close>

text \<open>
  \<open>PEM_REGEX\<close> is
  \<^verbatim>\<open>/^(-----BEGIN (.*)-----\r?\n[\/+=a-zA-Z0-9\r\n]*\r?\n-----END \2-----\r?\n)/m\<close>.
  Its parts are matchers that take what has to match behind them as a continuation. A dot
  matches every code unit but a line terminator; the class of the body is spelled out; with
  the flag \<open>m\<close> the anchor \<open>^\<close> matches at the start of the text and behind every line
  terminator.
\<close>

definition line_terminator :: "16 word \<Rightarrow> bool" where
  "line_terminator c = (c = 0x0A \<or> c = 0x0D \<or> c = 0x2028 \<or> c = 0x2029)"

definition body_char :: "16 word \<Rightarrow> bool" where
  "body_char c =
     (c = 47 \<or> c = 43 \<or> c = 61 \<or> (97 \<le> c \<and> c \<le> 122) \<or> (65 \<le> c \<and> c \<le> 90)
      \<or> (48 \<le> c \<and> c \<le> 57) \<or> c = 13 \<or> c = 10)"

text \<open>\<^verbatim>\<open>\r?\n\<close>: with the carriage return first, without it second.\<close>

definition match_crlf :: "(jsstring \<Rightarrow> bool) \<Rightarrow> jsstring \<Rightarrow> bool" where
  "match_crlf k s =
     ((case s of c # d # r \<Rightarrow> c = 13 \<and> d = 10 \<and> k r | _ \<Rightarrow> False)
      \<or> (case s of c # r \<Rightarrow> c = 10 \<and> k r | _ \<Rightarrow> False))"

text \<open>A literal.\<close>

definition match_lit :: "jsstring \<Rightarrow> (jsstring \<Rightarrow> bool) \<Rightarrow> jsstring \<Rightarrow> bool" where
  "match_lit lit k s = (take (length lit) s = lit \<and> k (drop (length lit) s))"

text \<open>
  The starred class: as many characters of the class as there are, then fewer, until the
  rest matches.
\<close>

definition match_body :: "(jsstring \<Rightarrow> bool) \<Rightarrow> jsstring \<Rightarrow> bool" where
  "match_body k s = list_ex (\<lambda>n. k (drop n s)) (rev [0..<Suc (length (takeWhile body_char s))])"

text \<open>What follows the label: \<^verbatim>\<open>-----\r?\n[...]*\r?\n-----END \2-----\r?\n\<close>.\<close>

definition after_label :: "jsstring \<Rightarrow> jsstring \<Rightarrow> bool" where
  "after_label label s =
     match_lit (js ''-----'')
       (match_crlf
          (match_body
             (match_crlf
                (match_lit (js ''-----END '' @ label @ js ''-----'')
                   (match_crlf (\<lambda>r. True)))))) s"

text \<open>
  The group \<^verbatim>\<open>(.*)\<close> is greedy: the longest label is tried first, then shorter ones, and
  the first one behind which the rest matches is captured.
\<close>

fun try_labels :: "jsstring \<Rightarrow> nat \<Rightarrow> jsstring option" where
  "try_labels s 0 = (if after_label [] s then Some [] else None)"
| "try_labels s (Suc n) =
     (if after_label (take (Suc n) s) (drop (Suc n) s) then Some (take (Suc n) s)
      else try_labels s n)"

definition match_here :: "jsstring \<Rightarrow> jsstring option" where
  "match_here s =
     (if take 11 s = js ''-----BEGIN '' then
        try_labels (drop 11 s) (length (takeWhile (\<lambda>c. \<not> line_terminator c) (drop 11 s)))
      else None)"

text \<open>
  \<open>PEM_REGEX.exec(text)\<close>, reduced to its second group: the first position, from the left,
  at which the anchor and the pattern match. \<open>bol\<close> tells whether the anchor matches at the
  position at hand.
\<close>

fun regex_scan :: "bool \<Rightarrow> jsstring \<Rightarrow> jsstring option" where
  "regex_scan bol [] = (if bol then match_here [] else None)"
| "regex_scan bol (c # cs) =
     (case (if bol then match_here (c # cs) else None) of
        Some label \<Rightarrow> Some label
      | None \<Rightarrow> regex_scan (line_terminator c) cs)"

definition PEM_REGEX_exec :: "jsstring \<Rightarrow> jsstring option" where
  "PEM_REGEX_exec text' = regex_scan True text'"

subsection \<open>\<open>identifyPemType\<close>, \<open>readPEM\<close>, \<open>toPem\<close>\<close>

text \<open>A key or certificate is handed over as a buffer or as a string.\<close>

datatype key_input = Buf buffer | Str jsstring

definition identifyPemType :: "key_input \<Rightarrow> jsstring option" where
  "identifyPemType raw_key =
     (let text' = (case raw_key of Buf b \<Rightarrow> toString_utf8 b | Str s \<Rightarrow> s)
      in PEM_REGEX_exec text')"

text \<open>\<open>if (pemType)\<close>: \<open>undefined\<close> and the empty string are falsy.\<close>

definition truthy :: "jsstring option \<Rightarrow> bool" where
  "truthy pemType = (case pemType of None \<Rightarrow> False | Some label \<Rightarrow> label \<noteq> [])"

text \<open>\<open>key.split("\n")\<close>.\<close>

fun split_nl :: "jsstring \<Rightarrow> jsstring list" where
  "split_nl [] = [[]]"
| "split_nl (c # cs) =
     (if c = 10 then [] # split_nl cs
      else (case split_nl cs of l # ls \<Rightarrow> (c # l) # ls | [] \<Rightarrow> [[c]]))"

text \<open>The loop of \<open>readPEM\<close>: \<open>for (i = 1; i < a.length - 2; i += 1)\<close>.\<close>

function readPEM_loop :: "jsstring list \<Rightarrow> nat \<Rightarrow> jsstring \<Rightarrow> jsstring" where
  "readPEM_loop a i base64Str =
     (if int i < int (length a) - 2 then readPEM_loop a (i + 1) (base64Str @ a ! i)
      else base64Str)"
  by pat_completeness auto
termination
  by (relation "measure (\<lambda>(a, i, s). length a - i)") auto

declare readPEM_loop.simps [simp del]

definition readPEM :: "key_input \<Rightarrow> buffer" where
  "readPEM raw_key =
     (let pemType = identifyPemType raw_key in
      if truthy pemType then
        let key = (case raw_key of Buf b \<Rightarrow> toString_utf8 b | Str s \<Rightarrow> s);
            a = split_nl key;
            base64Str = readPEM_loop a 1 []
        in Buffer_from_base64 base64Str
      else (case raw_key of Buf b \<Rightarrow> b | Str s \<Rightarrow> Buffer_from_utf8 s))"

text \<open>
  The loop of \<open>toPem\<close>: \<open>while (b.length) { str += b.substr(0, 64) + "\n"; b = b.substr(64); }\<close>.
\<close>

function toPem_loop :: "jsstring \<Rightarrow> jsstring \<Rightarrow> jsstring" where
  "toPem_loop str b =
     (if b \<noteq> [] then toPem_loop (str @ take 64 b @ js ''\<newline>'') (drop 64 b) else str)"
  by pat_completeness auto
termination
  by (relation "measure (\<lambda>(str, b). length b)") auto

declare toPem_loop.simps [simp del]

text \<open>
  \<open>toPem\<close>. Input that is identified as PEM is returned as it is. Otherwise the label has
  to be one of three; \<open>raw_key.toString("base64")\<close> is the base64 text of a buffer, and
  a string is its own \<open>toString\<close>.
\<close>

definition toPem :: "key_input \<Rightarrow> jsstring \<Rightarrow> error + key_input" where
  "toPem raw_key pem =
     (let pemType = identifyPemType raw_key in
      if truthy pemType then Inr raw_key
      else
        let pemType = pem in
        if pemType \<notin> set [js ''CERTIFICATE'', js ''RSA PRIVATE KEY'', js ''PUBLIC KEY'']
        then Inl AssertionError
        else
          let b = (case raw_key of Buf x \<Rightarrow> toString_base64 x | Str s \<Rightarrow> s);
              str = js ''-----BEGIN '' @ pemType @ js ''-----\<newline>'';
              str = toPem_loop str b;
              str = str @ js ''-----END '' @ pemType @ js ''-----'';
              str = str @ js ''\<newline>''
          in Inr (Str str))"

text \<open>The bytes of a small PEM text, as a buffer read from a file would hold them.\<close>

definition pem_text_bytes :: buffer where
  "pem_text_bytes =
     map of_char ''-----BEGIN CERTIFICATE-----\<newline>AAAA\<newline>-----END CERTIFICATE-----\<newline>''"

section \<open>Certificates\<close>











section \<open>Proofs: key derivation\<close>

subsection \<open>The pseudo-random stream\<close>

lemma slice_0: "slice b 0 (int n) = take n b"
  by (simp add: slice_def clamp_index_def min_def)

lemma length_P_SHA1: "digest_size hmac \<Longrightarrow> length (P_SHA1 hmac secret seed k) = 20 * k"
  by (induction k) (simp_all add: digest_size_def output_block_def)

lemma P_SHA1_covers:
  assumes "digest_size hmac"
  shows "n \<le> length (P_SHA1 hmac secret seed (n div 20 + 1))"
proof -
  have "length (P_SHA1 hmac secret seed (n div 20 + 1)) = 20 * (n div 20 + 1)"
    by (rule length_P_SHA1 [OF assms])
  moreover have "n \<le> 20 * (n div 20 + 1)"
    by arith
  ultimately show ?thesis by simp
qed

lemma P_SHA1_prefix: "k \<le> k' \<Longrightarrow> \<exists>r. P_SHA1 hmac secret seed k' = P_SHA1 hmac secret seed k @ r"
proof (induction k')
  case 0 then show ?case by simp
next
  case (Suc k')
  show ?case
  proof (cases "k = Suc k'")
    case True then show ?thesis by simp
  next
    case False
    with Suc.prems have "k \<le> k'" by simp
    from Suc.IH [OF this] obtain r where "P_SHA1 hmac secret seed k' = P_SHA1 hmac secret seed k @ r" ..
    then show ?thesis by simp
  qed
qed

lemma take_P_SHA1:
  assumes "n \<le> length (P_SHA1 hmac secret seed k)" "n \<le> length (P_SHA1 hmac secret seed k')"
  shows "take n (P_SHA1 hmac secret seed k) = take n (P_SHA1 hmac secret seed k')"
proof -
  have *: "take n (P_SHA1 hmac secret seed i) = take n (P_SHA1 hmac secret seed j)"
    if "i \<le> j" "n \<le> length (P_SHA1 hmac secret seed i)" for i j
  proof -
    from P_SHA1_prefix [OF that(1)] obtain r
      where "P_SHA1 hmac secret seed j = P_SHA1 hmac secret seed i @ r" ..
    with that(2) show ?thesis by simp
  qed
  show ?thesis
  proof (cases "k \<le> k'")
    case True with * assms show ?thesis by blast
  next
    case False
    then have "k' \<le> k" by simp
    with * assms show ?thesis by metis
  qed
qed

lemma prf_loop_run:
  assumes d: "digest_size hmac"
  shows "j \<le> minLength div 20 + 1 \<Longrightarrow> a j = Some (A_seq hmac secret seed j) \<Longrightarrow>
     prf_loop hmac secret seed minLength (a, Suc j, P_SHA1 hmac secret seed j)
       = Some (Inr (P_SHA1 hmac secret seed (minLength div 20 + 1)))"
proof (induction "minLength div 20 + 1 - j" arbitrary: j a)
  case 0
  then have "j = minLength div 20 + 1" by simp
  moreover have "length (P_SHA1 hmac secret seed j) = 20 * j"
    by (rule length_P_SHA1 [OF d])
  ultimately have "\<not> length (P_SHA1 hmac secret seed j) \<le> minLength"
    by arith
  then show ?case using \<open>j = minLength div 20 + 1\<close>
    by (subst prf_loop.simps) simp
next
  case (Suc x)
  then have lt: "j < minLength div 20 + 1" by simp
  moreover have "length (P_SHA1 hmac secret seed j) = 20 * j"
    by (rule length_P_SHA1 [OF d])
  ultimately have le: "length (P_SHA1 hmac secret seed j) \<le> minLength"
    by arith
  have "prf_loop hmac secret seed minLength
          ((a(Suc j \<mapsto> A_seq hmac secret seed (Suc j))), Suc (Suc j), P_SHA1 hmac secret seed (Suc j))
        = Some (Inr (P_SHA1 hmac secret seed (minLength div 20 + 1)))"
    using Suc lt by (intro Suc.hyps(1)) simp_all
  then show ?case using le Suc.prems(2)
    by (subst prf_loop.simps) (simp add: plus_def output_block_def)
qed

lemma makePseudoRandomBuffer_eq:
  assumes d: "digest_size hmac"
  shows "makePseudoRandomBuffer hmac secret seed minLength
     = Some (Inr (take minLength (P_SHA1 hmac secret seed (minLength div 20 + 1))))"
  using prf_loop_run [OF d, of 0 minLength "[0 \<mapsto> seed]" secret seed]
  by (simp add: makePseudoRandomBuffer_def slice_0)

text \<open>
  C1. Provided the HMAC returns 20-byte digests, \<open>makePseudoRandomBuffer\<close> returns, and
  what it returns has exactly \<open>minLength\<close> bytes: the first \<open>minLength\<close> bytes of the
  P_SHA1 stream, however many output blocks \<open>k\<close> of the stream are taken as long as they
  cover \<open>minLength\<close> bytes. For a secret of 20 zero bytes, a seed of 20 bytes 1 and
  \<open>minLength = 20\<close> the result is \<open>HMAC(secret, HMAC(secret, seed) ++ seed)\<close>.
\<close>

theorem makePseudoRandomBuffer_P_SHA1:
  assumes d: "digest_size hmac"
  shows "(\<exists>r. makePseudoRandomBuffer hmac secret seed minLength = Some (Inr r)
            \<and> length r = minLength
            \<and> (\<forall>k. minLength \<le> 20 * k \<longrightarrow> r = take minLength (P_SHA1 hmac secret seed k)))
       \<and> makePseudoRandomBuffer hmac (replicate 20 0) (replicate 20 1) 20
           = Some (Inr (hmac (replicate 20 0) (hmac (replicate 20 0) (replicate 20 1) @ replicate 20 1)))"
proof
  let ?K = "minLength div 20 + 1"
  let ?r = "take minLength (P_SHA1 hmac secret seed ?K)"
  have lenK: "minLength \<le> length (P_SHA1 hmac secret seed ?K)"
    by (rule P_SHA1_covers [OF d])
  have "makePseudoRandomBuffer hmac secret seed minLength = Some (Inr ?r)"
    by (rule makePseudoRandomBuffer_eq [OF d])
  moreover have "length ?r = minLength"
    using lenK by simp
  moreover have "\<forall>k. minLength \<le> 20 * k \<longrightarrow> ?r = take minLength (P_SHA1 hmac secret seed k)"
  proof (intro allI impI)
    fix k assume "minLength \<le> 20 * k"
    moreover have "length (P_SHA1 hmac secret seed k) = 20 * k"
      by (rule length_P_SHA1 [OF d])
    ultimately have "minLength \<le> length (P_SHA1 hmac secret seed k)"
      by simp
    with lenK show "?r = take minLength (P_SHA1 hmac secret seed k)"
      by (rule take_P_SHA1)
  qed
  ultimately show "\<exists>r. makePseudoRandomBuffer hmac secret seed minLength = Some (Inr r)
            \<and> length r = minLength
            \<and> (\<forall>k. minLength \<le> 20 * k \<longrightarrow> r = take minLength (P_SHA1 hmac secret seed k))"
    by blast
next
  let ?secret = "replicate 20 (0::byte)" and ?seed = "replicate 20 (1::byte)"
  have "makePseudoRandomBuffer hmac ?secret ?seed 20
          = Some (Inr (take 20 (P_SHA1 hmac ?secret ?seed (20 div 20 + 1))))"
    by (rule makePseudoRandomBuffer_eq [OF d])
  moreover have "length (output_block hmac ?secret ?seed 1) = 20"
    using d by (simp add: digest_size_def output_block_def)
  then have "take 20 (P_SHA1 hmac ?secret ?seed (20 div 20 + 1)) = output_block hmac ?secret ?seed 1"
    by (simp add: numeral_2_eq_2)
  moreover have "output_block hmac ?secret ?seed 1 = hmac ?secret (hmac ?secret ?seed @ ?seed)"
    by (simp add: output_block_def)
  ultimately show "makePseudoRandomBuffer hmac ?secret ?seed 20
           = Some (Inr (hmac ?secret (hmac ?secret ?seed @ ?seed)))"
    by simp
qed

lemma digest_size_sample_mac: "digest_size sample_mac"
  by (auto simp: digest_size_def sample_mac_def min_def)

theorem makePseudoRandomBuffer_P_SHA1_witness:
  "digest_size sample_mac
   \<and> makePseudoRandomBuffer sample_mac [7, 8] [1, 2, 3] 5 = Some (Inr [1, 2, 3, 7, 8])"
proof -
  from makePseudoRandomBuffer_P_SHA1 [OF digest_size_sample_mac, of "[7, 8]" "[1, 2, 3]" 5]
  obtain r where r: "makePseudoRandomBuffer sample_mac [7, 8] [1, 2, 3] 5 = Some (Inr r)"
    and k: "\<forall>k. 5 \<le> 20 * k \<longrightarrow> r = take 5 (P_SHA1 sample_mac [7, 8] [1, 2, 3] k)"
    by blast
  from k have "5 \<le> 20 * Suc 0 \<longrightarrow> r = take 5 (P_SHA1 sample_mac [7, 8] [1, 2, 3] (Suc 0))"
    by (rule spec)
  then have "r = [1, 2, 3, 7, 8]"
    by (simp add: output_block_def sample_mac_def)
  with r digest_size_sample_mac show ?thesis by simp
qed


subsection \<open>Slicing the stream into keys\<close>

lemma clamp_index_nat: "clamp_index (int i) len = min i len"
  by (simp add: clamp_index_def)

lemma slice_nat: "slice b (int i) (int j) = take (min j (length b) - min i (length b)) (drop (min i (length b)) b)"
  by (simp add: slice_def clamp_index_nat Let_def)

lemma slice_in_range:
  "i \<le> j \<Longrightarrow> j \<le> length b \<Longrightarrow> slice b (int i) (int j) = take (j - i) (drop i b)"
  by (simp add: slice_nat min_def)

lemma split3:
  assumes "length s = a + b + c"
  shows "s = take a s @ take b (drop a s) @ take c (drop (a + b) s)"
proof -
  have "take c (drop (a + b) s) = drop (a + b) s" using assms by simp
  moreover have "take b (drop a s) @ drop (a + b) s = drop a s"
    by (metis add.commute append_take_drop_id drop_drop)
  ultimately show ?thesis by simp
qed

lemma sample_stream:
  "makePseudoRandomBuffer sample_mac [7, 8] [1, 2, 3] 5 = Some (Inr [1, 2, 3, 7, 8])"
  using makePseudoRandomBuffer_eq [OF digest_size_sample_mac, of "[7, 8]" "[1, 2, 3]" 5]
  by (simp add: output_block_def sample_mac_def)


subsection \<open>Numbers in the option fields\<close>

lemma Buffer_slice_Fin: "Buffer_slice rt b (JNumber (Fin i)) (JNumber (Fin j)) = slice b i j"
  by (simp add: Buffer_slice_def slice_def adjustOffset_def ToNumber_def Let_def)

lemma Buffer_slice_end: "Buffer_slice rt b (JNumber (Fin i)) JUndefined = slice_from b i"
  by (simp add: Buffer_slice_def slice_from_def slice_def adjustOffset_def ToNumber_def Let_def
      clamp_index_def)

lemma js_plus_Fin: "js_plus rt (JNumber (Fin a)) (JNumber (Fin b)) = JNumber (Fin (a + b))"
  by (simp add: js_plus_def is_string_def ToNumber_def)

lemma underscore_isFinite_Fin: "underscore_isFinite rt (JNumber (Fin i))"
  by (simp add: underscore_isFinite_def)

lemma makePseudoRandomBuffer_value_nat:
  "makePseudoRandomBuffer_value rt hmac secret seed (JNumber (Fin (int n)))
     = makePseudoRandomBuffer hmac secret seed n"
  by (simp add: makePseudoRandomBuffer_value_def ToNumber_def)

lemma computeDerivedKeys_numbers:
  assumes o1: "signingKeyLength options = Some (JNumber (Fin (int skl)))"
    and o2: "encryptingKeyLength options = Some (JNumber (Fin (int ekl)))"
    and o3: "encryptingBlockSize options = Some (JNumber (Fin (int ebs)))"
    and o4: "underscore_isFinite rt (get_prop (signatureLength options))"
    and o5: "is_string (get_prop (algorithm options))"
    and buf: "makePseudoRandomBuffer hmac secret seed (skl + ekl + ebs) = Some (Inr buf)"
  shows "computeDerivedKeys rt hmac secret seed options =
     Some (Inr \<lparr>signingKeyLength = Some (JNumber (Fin (int skl))),
                 encryptingKeyLength = Some (JNumber (Fin (int ekl))),
                 encryptingBlockSize = Some (JNumber (Fin (int ebs))),
                 signatureLength = Some (get_prop (signatureLength options)),
                 algorithm = Some (get_prop (algorithm options)),
                 signingKey = slice buf 0 (int skl),
                 encryptingKey = slice buf (int skl) (int (skl + ekl)),
                 initializationVector = slice buf (int (skl + ekl)) (int (skl + ekl + ebs))\<rparr>)"
proof -
  have "int skl + int ekl + int ebs = int (skl + ekl + ebs)" by simp
  then have "makePseudoRandomBuffer_value rt hmac secret seed
          (JNumber (Fin (int skl + int ekl + int ebs))) = Some (Inr buf)"
    using buf makePseudoRandomBuffer_value_nat [of rt hmac secret seed "skl + ekl + ebs"]
    by (simp only:)
  then show ?thesis
    using o1 o2 o3 o4 o5
    by (simp add: computeDerivedKeys_def get_prop_def js_plus_Fin underscore_isFinite_Fin
        Buffer_slice_Fin Let_def)
qed

text \<open>
  What the asserts let through: a \<open>signatureLength\<close> that is a numeric string, and
  options without a \<open>signingKeyLength\<close>, for which the offsets are \<open>NaN\<close> and the
  three keys are empty.
\<close>

lemma is_digits_20: "is_digits (js ''20'')"
  by (simp add: is_digits_def js_def)

lemma computeDerivedKeys_numeric_string:
  "computeDerivedKeys decimal_runtime sample_mac [7, 8] [1, 2, 3]
       (sample_options\<lparr>signatureLength := Some (JString (js ''20''))\<rparr>)
     = Some (Inr \<lparr>signingKeyLength = Some (JNumber (Fin 2)),
                  encryptingKeyLength = Some (JNumber (Fin 2)),
                  encryptingBlockSize = Some (JNumber (Fin 1)),
                  signatureLength = Some (JString (js ''20'')),
                  algorithm = Some (JString (js ''aes-128-cbc'')),
                  signingKey = [1, 2], encryptingKey = [3, 7], initializationVector = [8]\<rparr>)"
  using sample_stream is_digits_20
  by (simp add: computeDerivedKeys_def sample_options_def get_prop_def
      underscore_isFinite_def is_string_def js_plus_Fin makePseudoRandomBuffer_value_def
      ToNumber_def Buffer_slice_Fin slice_def clamp_index_def Let_def decimal_runtime_def)

lemma computeDerivedKeys_no_signingKeyLength:
  assumes "signingKeyLength options = None"
    and "encryptingKeyLength options = Some (JNumber (Fin ekl))"
    and "encryptingBlockSize options = Some (JNumber (Fin ebs))"
    and "underscore_isFinite rt (get_prop (signatureLength options))"
    and "is_string (get_prop (algorithm options))"
  shows "\<exists>keys. computeDerivedKeys rt hmac secret seed options = Some (Inr keys)
     \<and> signingKey keys = [] \<and> encryptingKey keys = [] \<and> initializationVector keys = []"
  using assms
  by (simp add: computeDerivedKeys_def get_prop_def underscore_isFinite_def is_string_def
      js_plus_def makePseudoRandomBuffer_value_def ToNumber_def Buffer_slice_def Let_def)

text \<open>
  C2, as the code has it. For options whose \<open>signingKeyLength\<close>, \<open>encryptingKeyLength\<close>
  and \<open>encryptingBlockSize\<close> are non-negative integers, whose \<open>signatureLength\<close> passes
  \<open>_.isFinite\<close> and whose \<open>algorithm\<close> is a string, \<open>computeDerivedKeys\<close> returns a
  key set. It draws \<open>signingKeyLength + encryptingKeyLength + encryptingBlockSize\<close> bytes
  from the pseudo-random stream of the secret and the seed; the \<open>signingKey\<close> of the key
  set is the first \<open>signingKeyLength\<close> bytes drawn, its \<open>encryptingKey\<close> the next
  \<open>encryptingKeyLength\<close> bytes and its \<open>initializationVector\<close> the next
  \<open>encryptingBlockSize\<close> bytes. Each has the requested length, and put end to end they
  are the bytes drawn.
\<close>

theorem computeDerivedKeys_slices:
  assumes d: "digest_size hmac"
    and o1: "signingKeyLength options = Some (JNumber (Fin (int skl)))"
    and o2: "encryptingKeyLength options = Some (JNumber (Fin (int ekl)))"
    and o3: "encryptingBlockSize options = Some (JNumber (Fin (int ebs)))"
    and o4: "underscore_isFinite rt (get_prop (signatureLength options))"
    and o5: "is_string (get_prop (algorithm options))"
  shows "\<exists>keys stream.
      computeDerivedKeys rt hmac secret seed options = Some (Inr keys)
    \<and> makePseudoRandomBuffer hmac secret seed (skl + ekl + ebs) = Some (Inr stream)
    \<and> length stream = skl + ekl + ebs
    \<and> signingKey keys = take skl stream
    \<and> encryptingKey keys = take ekl (drop skl stream)
    \<and> initializationVector keys = take ebs (drop (skl + ekl) stream)
    \<and> length (signingKey keys) = skl
    \<and> length (encryptingKey keys) = ekl
    \<and> length (initializationVector keys) = ebs
    \<and> signingKey keys @ encryptingKey keys @ initializationVector keys = stream"
proof -
  let ?n = "skl + ekl + ebs"
  define stream where "stream = take ?n (P_SHA1 hmac secret seed (?n div 20 + 1))"
  have strm: "makePseudoRandomBuffer hmac secret seed ?n = Some (Inr stream)"
    unfolding stream_def by (rule makePseudoRandomBuffer_eq [OF d])
  have "?n \<le> length (P_SHA1 hmac secret seed (?n div 20 + 1))"
    by (rule P_SHA1_covers [OF d])
  then have len: "length stream = ?n"
    unfolding stream_def by simp
  define keys where "keys =
     \<lparr>signingKeyLength = Some (JNumber (Fin (int skl))),
      encryptingKeyLength = Some (JNumber (Fin (int ekl))),
      encryptingBlockSize = Some (JNumber (Fin (int ebs))),
      signatureLength = Some (get_prop (signatureLength options)),
      algorithm = Some (get_prop (algorithm options)),
      signingKey = slice stream 0 (int skl),
      encryptingKey = slice stream (int skl) (int (skl + ekl)),
      initializationVector = slice stream (int (skl + ekl)) (int (skl + ekl + ebs))\<rparr>"
  have run: "computeDerivedKeys rt hmac secret seed options = Some (Inr keys)"
    unfolding keys_def by (rule computeDerivedKeys_numbers [OF o1 o2 o3 o4 o5 strm])
  have s1: "signingKey keys = take skl stream"
    by (simp add: keys_def slice_0)
  have s2: "encryptingKey keys = take ekl (drop skl stream)"
    using slice_in_range [of skl "skl + ekl" stream] len by (simp add: keys_def)
  have s3: "initializationVector keys = take ebs (drop (skl + ekl) stream)"
    using slice_in_range [of "skl + ekl" ?n stream] len by (simp add: keys_def)
  have l1: "length (signingKey keys) = skl" using len by (simp add: s1)
  have l2: "length (encryptingKey keys) = ekl" using len by (simp add: s2)
  have l3: "length (initializationVector keys) = ebs" using len by (simp add: s3)
  have cat: "signingKey keys @ encryptingKey keys @ initializationVector keys = stream"
    unfolding s1 s2 s3 by (rule split3 [OF len, symmetric])
  show ?thesis
    by (intro exI [of _ keys] exI [of _ stream] conjI run strm len s1 s2 s3 l1 l2 l3 cat)
qed

lemma sample_options_fields:
  "signingKeyLength sample_options = Some (JNumber (Fin (int 2)))"
  "encryptingKeyLength sample_options = Some (JNumber (Fin (int 2)))"
  "encryptingBlockSize sample_options = Some (JNumber (Fin (int 1)))"
  "underscore_isFinite decimal_runtime (get_prop (signatureLength sample_options))"
  "is_string (get_prop (algorithm sample_options))"
  by (simp_all add: sample_options_def get_prop_def underscore_isFinite_def is_string_def)

theorem computeDerivedKeys_slices_witness:
  "digest_size sample_mac
   \<and> (\<exists>keys. computeDerivedKeys decimal_runtime sample_mac [7, 8] [1, 2, 3] sample_options
                = Some (Inr keys)
          \<and> signingKey keys = [1, 2] \<and> encryptingKey keys = [3, 7]
          \<and> initializationVector keys = [8])"
proof -
  from computeDerivedKeys_slices [OF digest_size_sample_mac sample_options_fields,
      of "[7, 8]" "[1, 2, 3]"]
  obtain keys stream where
    run: "computeDerivedKeys decimal_runtime sample_mac [7, 8] [1, 2, 3] sample_options
            = Some (Inr keys)"
    and strm: "makePseudoRandomBuffer sample_mac [7, 8] [1, 2, 3] (2 + 2 + 1) = Some (Inr stream)"
    and f: "signingKey keys = take 2 stream" "encryptingKey keys = take 2 (drop 2 stream)"
      "initializationVector keys = take 1 (drop (2 + 2) stream)"
    by blast
  from strm have "stream = [1, 2, 3, 7, 8]"
    using sample_stream by simp
  with f have "signingKey keys = [1, 2]" "encryptingKey keys = [3, 7]"
    "initializationVector keys = [8]"
    by simp_all
  with run digest_size_sample_mac show ?thesis by blast
qed

lemma sample_stream_2:
  "makePseudoRandomBuffer sample_mac [7, 8] [1, 2, 3] 2 = Some (Inr [1, 2])"
  using makePseudoRandomBuffer_eq [OF digest_size_sample_mac, of "[7, 8]" "[1, 2, 3]" 2]
  by (simp add: output_block_def sample_mac_def)

text \<open>
  C2 as the claim words it asks only for the three lengths to be numeric. Without a
  \<open>signatureLength\<close>, or without an \<open>algorithm\<close>, the asserts of \<open>computeDerivedKeys\<close>
  fail although the three lengths are numbers; and with a \<open>signingKeyLength\<close> of \<open>-1\<close>
  (and the other lengths 2 and 1) the signing key has one byte and the encrypting key none.
\<close>

theorem computeDerivedKeys_other_options:
  "map (\<lambda>f. f no_signatureLength_options) [signingKeyLength, encryptingKeyLength, encryptingBlockSize]
     = [Some (JNumber (Fin 2)), Some (JNumber (Fin 2)), Some (JNumber (Fin 1))]
   \<and> computeDerivedKeys decimal_runtime sample_mac [7, 8] [1, 2, 3] no_signatureLength_options
       = Some (Inl AssertionError)
   \<and> map (\<lambda>f. f no_algorithm_options) [signingKeyLength, encryptingKeyLength, encryptingBlockSize]
     = [Some (JNumber (Fin 2)), Some (JNumber (Fin 2)), Some (JNumber (Fin 1))]
   \<and> computeDerivedKeys decimal_runtime sample_mac [7, 8] [1, 2, 3] no_algorithm_options
       = Some (Inl AssertionError)
   \<and> map (\<lambda>f. f negative_length_options) [signingKeyLength, encryptingKeyLength, encryptingBlockSize]
     = [Some (JNumber (Fin (- 1))), Some (JNumber (Fin 2)), Some (JNumber (Fin 1))]
   \<and> (\<exists>keys. computeDerivedKeys decimal_runtime sample_mac [7, 8] [1, 2, 3] negative_length_options
                = Some (Inr keys)
          \<and> signingKey keys = [1] \<and> encryptingKey keys = [] \<and> initializationVector keys = [2])"
  using sample_stream_2
  by (simp add: computeDerivedKeys_def no_signatureLength_options_def no_algorithm_options_def
      negative_length_options_def sample_options_def get_prop_def underscore_isFinite_def
      is_string_def js_plus_Fin makePseudoRandomBuffer_value_def ToNumber_def Buffer_slice_Fin
      slice_def clamp_index_def Let_def)


subsection \<open>Where the algorithm name is checked\<close>

lemma computeDerivedKeys_not_string:
  assumes "\<not> is_string (get_prop (algorithm options))"
  shows "computeDerivedKeys rt hmac secret seed options = Some (Inl AssertionError)"
  using assms by (simp add: computeDerivedKeys_def)

lemma derivedKeys_algorithm_string:
  assumes "algorithm keys = Some (JString alg)"
  shows "derivedKeys_algorithm keys =
     (if alg = js ''aes-128-cbc'' \<or> alg = js ''aes-256-cbc'' then Inr alg
      else if alg = [] then Inr (js ''aes-128-cbc'') else Inl AssertionError)"
  using assms
  by (auto simp: derivedKeys_algorithm_def hasOwnProperty_def get_prop_def ToBoolean_def js_def)

lemma derivedKeys_algorithm_undefined:
  "algorithm keys = Some JUndefined \<Longrightarrow> derivedKeys_algorithm keys = Inr (js ''aes-128-cbc'')"
  by (simp add: derivedKeys_algorithm_def hasOwnProperty_def get_prop_def ToBoolean_def)

lemma derivedKeys_algorithm_missing:
  "algorithm keys = None \<Longrightarrow> derivedKeys_algorithm keys = Inl AssertionError"
  by (simp add: derivedKeys_algorithm_def hasOwnProperty_def)

text \<open>
  C6, as the code has it. \<open>computeDerivedKeys\<close> looks at the type of
  \<open>options.algorithm\<close>, not at its value: it fails, with an assertion error, whenever
  \<open>algorithm\<close> is not a string, and for options whose four lengths are non-negative
  integers it returns, for every string, a key set that carries the string unchanged.
  The name is checked where the key set is used: \<open>derivedKeys_algorithm\<close>, the first step
  of encrypting and decrypting, returns \<open>aes-128-cbc\<close> and \<open>aes-256-cbc\<close>, reads the
  empty string as \<open>aes-128-cbc\<close> and fails on every other string, and then so do
  encryption and decryption.
\<close>

theorem computeDerivedKeys_algorithm_check:
  assumes d: "digest_size hmac"
  shows "(\<not> is_string (get_prop (algorithm options)) \<longrightarrow>
            computeDerivedKeys rt hmac secret seed options = Some (Inl AssertionError))
       \<and> (signingKeyLength options = Some (JNumber (Fin (int skl)))
            \<and> encryptingKeyLength options = Some (JNumber (Fin (int ekl)))
            \<and> encryptingBlockSize options = Some (JNumber (Fin (int ebs)))
            \<and> signatureLength options = Some (JNumber (Fin (int sl)))
            \<and> algorithm options = Some (JString alg) \<longrightarrow>
            (\<exists>keys. computeDerivedKeys rt hmac secret seed options = Some (Inr keys)
                    \<and> algorithm keys = Some (JString alg)))
       \<and> (algorithm keys = Some (JString alg) \<longrightarrow>
            derivedKeys_algorithm keys =
              (if alg = js ''aes-128-cbc'' \<or> alg = js ''aes-256-cbc'' then Inr alg
               else if alg = [] then Inr (js ''aes-128-cbc'') else Inl AssertionError))
       \<and> (derivedKeys_algorithm keys = Inl e \<longrightarrow>
            encryptBufferWithDerivedKeys cypher buffer keys = Inl e
          \<and> decryptBufferWithDerivedKeys cypher buffer keys = Inl e)"
proof (intro conjI impI)
  assume "\<not> is_string (get_prop (algorithm options))"
  then show "computeDerivedKeys rt hmac secret seed options = Some (Inl AssertionError)"
    by (rule computeDerivedKeys_not_string)
next
  assume o: "signingKeyLength options = Some (JNumber (Fin (int skl)))
            \<and> encryptingKeyLength options = Some (JNumber (Fin (int ekl)))
            \<and> encryptingBlockSize options = Some (JNumber (Fin (int ebs)))
            \<and> signatureLength options = Some (JNumber (Fin (int sl)))
            \<and> algorithm options = Some (JString alg)"
  then have o4: "underscore_isFinite rt (get_prop (signatureLength options))"
    and o5: "is_string (get_prop (algorithm options))"
    and a: "get_prop (algorithm options) = JString alg"
    by (simp_all add: get_prop_def underscore_isFinite_def is_string_def)
  obtain buf where buf: "makePseudoRandomBuffer hmac secret seed (skl + ekl + ebs) = Some (Inr buf)"
    using makePseudoRandomBuffer_eq [OF d] by blast
  from o have o1: "signingKeyLength options = Some (JNumber (Fin (int skl)))"
    and o2: "encryptingKeyLength options = Some (JNumber (Fin (int ekl)))"
    and o3: "encryptingBlockSize options = Some (JNumber (Fin (int ebs)))"
    by simp_all
  show "\<exists>keys. computeDerivedKeys rt hmac secret seed options = Some (Inr keys)
                    \<and> algorithm keys = Some (JString alg)"
    using computeDerivedKeys_numbers [OF o1 o2 o3 o4 o5 buf] a by simp
next
  assume "algorithm keys = Some (JString alg)"
  then show "derivedKeys_algorithm keys =
              (if alg = js ''aes-128-cbc'' \<or> alg = js ''aes-256-cbc'' then Inr alg
               else if alg = [] then Inr (js ''aes-128-cbc'') else Inl AssertionError)"
    by (rule derivedKeys_algorithm_string)
next
  assume "derivedKeys_algorithm keys = Inl e"
  then show "encryptBufferWithDerivedKeys cypher buffer keys = Inl e"
    by (simp add: encryptBufferWithDerivedKeys_def)
next
  assume "derivedKeys_algorithm keys = Inl e"
  then show "decryptBufferWithDerivedKeys cypher buffer keys = Inl e"
    by (simp add: decryptBufferWithDerivedKeys_def)
qed

text \<open>
  C6 as the claim words it fails on the algorithm \<open>des\<close>: \<open>computeDerivedKeys\<close> returns a
  key set for it.
\<close>

theorem computeDerivedKeys_accepts_des:
  "computeDerivedKeys decimal_runtime sample_mac [7, 8] [1, 2, 3] des_options
     = Some (Inr \<lparr>signingKeyLength = Some (JNumber (Fin 2)),
                  encryptingKeyLength = Some (JNumber (Fin 2)),
                  encryptingBlockSize = Some (JNumber (Fin 1)),
                  signatureLength = Some (JNumber (Fin 20)),
                  algorithm = Some (JString (js ''des'')),
                  signingKey = [1, 2], encryptingKey = [3, 7], initializationVector = [8]\<rparr>)
   \<and> algorithm des_options = Some (JString (js ''des''))
   \<and> js ''des'' \<noteq> js ''aes-128-cbc'' \<and> js ''des'' \<noteq> js ''aes-256-cbc''"
  using sample_stream
  by (simp add: computeDerivedKeys_def des_options_def sample_options_def get_prop_def
      underscore_isFinite_def is_string_def js_plus_Fin makePseudoRandomBuffer_value_def
      ToNumber_def Buffer_slice_Fin slice_def clamp_index_def Let_def js_def)

theorem computeDerivedKeys_algorithm_check_witness:
  "digest_size sample_mac
   \<and> (\<exists>keys. computeDerivedKeys decimal_runtime sample_mac [7, 8] [1, 2, 3] des_options
                = Some (Inr keys)
             \<and> algorithm keys = Some (JString (js ''des'')))
   \<and> derivedKeys_algorithm (sample_keys\<lparr>algorithm := Some (JString (js ''des''))\<rparr>)
       = Inl AssertionError
   \<and> encryptBufferWithDerivedKeys null_cipher [0]
        (sample_keys\<lparr>algorithm := Some (JString (js ''des''))\<rparr>) = Inl AssertionError
   \<and> decryptBufferWithDerivedKeys null_cipher [0]
        (sample_keys\<lparr>algorithm := Some (JString (js ''des''))\<rparr>) = Inl AssertionError"
proof -
  have o: "signingKeyLength des_options = Some (JNumber (Fin (int 2)))"
    "encryptingKeyLength des_options = Some (JNumber (Fin (int 2)))"
    "encryptingBlockSize des_options = Some (JNumber (Fin (int 1)))"
    "signatureLength des_options = Some (JNumber (Fin (int 20)))"
    "algorithm des_options = Some (JString (js ''des''))"
    by (simp_all add: des_options_def sample_options_def)
  have a: "algorithm (sample_keys\<lparr>algorithm := Some (JString (js ''des''))\<rparr>)
             = Some (JString (js ''des''))"
    by simp
  have n: "js ''des'' \<noteq> js ''aes-128-cbc''" "js ''des'' \<noteq> js ''aes-256-cbc''" "js ''des'' \<noteq> []"
    by (simp_all add: js_def)
  from computeDerivedKeys_algorithm_check [OF digest_size_sample_mac,
      of des_options decimal_runtime "[7, 8]" "[1, 2, 3]" 2 2 1 20 "js ''des''"
         "sample_keys\<lparr>algorithm := Some (JString (js ''des''))\<rparr>"
         AssertionError null_cipher "[0]"]
  show ?thesis
    using digest_size_sample_mac o a n by simp
qed


section \<open>Proofs: symmetric channel protection\<close>

subsection \<open>The padding footer\<close>

lemma removePadding_footer:
  assumes "pl \<le> 255"
  shows "removePadding (p @ replicate (pl + 1) (of_nat pl)) = Inr p"
proof -
  let ?buffer = "p @ replicate (pl + 1) (of_nat pl :: byte)"
  have "unat (of_nat pl :: byte) = pl"
    using assms by (simp add: unat_of_nat)
  moreover have "last ?buffer = of_nat pl"
    by simp
  ultimately have nb: "unat (last ?buffer) + 1 = pl + 1"
    by simp
  have "int (length ?buffer) - int (pl + 1) = int (length p)"
    by simp
  then have "reduceLength ?buffer (pl + 1) = take (length p) ?buffer"
    unfolding reduceLength_def by (simp only: slice_0)
  then have "reduceLength ?buffer (pl + 1) = p"
    by simp
  moreover have "?buffer \<noteq> []"
    by simp
  ultimately show ?thesis
    unfolding removePadding_def Let_def nb by simp
qed

lemma num_sub_Fin: "num_sub (Fin a) (Fin b) = Fin (a - b)"
  by (simp add: num_sub_def num_neg_def)

lemma computePaddingFooter_number:
  assumes b: "encryptingBlockSize keys = Some (JNumber (Fin (int B)))" and pos: "0 < B"
  shows "computePaddingFooter rt p keys
     = Inr (replicate (B - (length p + 1) mod B + 1) (of_nat (B - (length p + 1) mod B)))"
proof -
  let ?r = "(length p + 1) mod B"
  have r: "?r < B" using pos by simp
  have "sgn (int (length p) + 1) * (\<bar>int (length p) + 1\<bar> mod \<bar>int B\<bar>) = int ?r"
    by (simp add: zmod_int ac_simps)
  then have m: "num_mod (Fin (int (length p) + 1)) (Fin (int B)) = Fin (int ?r)"
    using pos by simp
  have s: "int B - int ?r = int (B - ?r)"
    using r by simp
  have n: "nat (int (B - ?r) + 1) = B - ?r + 1"
    by simp
  show ?thesis
    unfolding computePaddingFooter_def hasOwnProperty_def get_prop_def ToNumber_def Let_def b
    by (simp only: option.case jsval.case m num_sub_Fin s jsnum.case n of_int_of_nat_eq)
       simp
qed

lemma computePaddingFooter_missing:
  "encryptingBlockSize keys = None \<Longrightarrow> computePaddingFooter rt p keys = Inl AssertionError"
  by (simp add: computePaddingFooter_def hasOwnProperty_def)

lemma computePaddingFooter_undefined:
  "encryptingBlockSize keys = Some JUndefined \<Longrightarrow> computePaddingFooter rt p keys = Inl RangeError"
  by (simp add: computePaddingFooter_def hasOwnProperty_def get_prop_def ToNumber_def
      num_sub_def num_neg_def)

lemma computePaddingFooter_zero:
  "encryptingBlockSize keys = Some (JNumber (Fin 0)) \<Longrightarrow> computePaddingFooter rt p keys = Inl RangeError"
  by (simp add: computePaddingFooter_def hasOwnProperty_def get_prop_def ToNumber_def
      num_sub_def num_neg_def)

text \<open>
  C3, for block sizes that fit the padding byte. With a block size \<open>B\<close> from 1 to 255,
  \<open>computePaddingFooter\<close> returns \<open>paddingLength + 1\<close> bytes, each equal to
  \<open>paddingLength = B - (len(p) + 1) mod B\<close>, and \<open>removePadding\<close> applied to the
  plaintext followed by this footer returns the plaintext.
\<close>

theorem computePaddingFooter_removePadding:
  assumes b: "encryptingBlockSize keys = Some (JNumber (Fin (int B)))"
    and pos: "0 < B" and le: "B \<le> 255"
  shows "\<exists>footer. computePaddingFooter rt p keys = Inr footer
     \<and> length footer = (B - (length p + 1) mod B) + 1
     \<and> (\<forall>x \<in> set footer. unat x = B - (length p + 1) mod B)
     \<and> removePadding (p @ footer) = Inr p"
proof -
  let ?pl = "B - (length p + 1) mod B"
  let ?footer = "replicate (?pl + 1) (of_nat ?pl :: byte)"
  have pl: "?pl \<le> 255" using le by simp
  then have u: "unat (of_nat ?pl :: byte) = ?pl"
    by (simp add: unat_of_nat)
  have "computePaddingFooter rt p keys = Inr ?footer"
    by (rule computePaddingFooter_number [OF b pos])
  moreover have "length ?footer = ?pl + 1" by simp
  moreover have "\<forall>x \<in> set ?footer. unat x = ?pl" using u by simp
  moreover have "removePadding (p @ ?footer) = Inr p"
    by (rule removePadding_footer [OF pl])
  ultimately show ?thesis by blast
qed

theorem computePaddingFooter_removePadding_witness:
  "encryptingBlockSize sample_keys = Some (JNumber (Fin 16))
   \<and> computePaddingFooter decimal_runtime [1, 2, 3] sample_keys = Inr (12 # replicate 12 12)
   \<and> removePadding ([1, 2, 3] @ (12 # replicate 12 12)) = Inr [1, 2, 3]"
proof -
  have b: "encryptingBlockSize sample_keys = Some (JNumber (Fin (int 16)))"
    by (simp add: sample_keys_def)
  from computePaddingFooter_removePadding [OF b, of decimal_runtime "[1, 2, 3]"]
  obtain footer where f: "computePaddingFooter decimal_runtime [1, 2, 3] sample_keys = Inr footer"
    and r: "removePadding ([1, 2, 3] @ footer) = Inr [1, 2, 3]"
    by auto
  have "replicate (Suc 12) (12 :: byte) = 12 # replicate 12 12"
    by (rule replicate_Suc)
  moreover have "(13 :: nat) = Suc 12"
    by simp
  ultimately have c: "replicate 13 (12 :: byte) = 12 # replicate 12 12"
    by (simp only:)
  have "computePaddingFooter decimal_runtime [1, 2, 3] sample_keys = Inr (replicate 13 12)"
    using computePaddingFooter_number [OF b, of decimal_runtime "[1, 2, 3]"]
    by (simp del: replicate_Suc replicate.simps)
  then have "computePaddingFooter decimal_runtime [1, 2, 3] sample_keys = Inr (12 # replicate 12 12)"
    by (simp only: c)
  with f have "footer = (12 # replicate 12 12)" by simp
  with b f r show ?thesis by simp
qed

text \<open>
  With a block size of 512 and the empty plaintext the padding length is 511, which a byte
  cannot hold: the footer is 512 bytes 255, and \<open>removePadding\<close> takes 256 bytes off.
\<close>

theorem computePaddingFooter_wide_block:
  "computePaddingFooter decimal_runtime [] wide_block_keys = Inr (replicate 512 255)
   \<and> unat (255 :: byte) \<noteq> 512 - (length ([] :: buffer) + 1) mod 512
   \<and> removePadding ([] @ replicate 512 255) = Inr (replicate 256 255)
   \<and> replicate 256 255 \<noteq> ([] :: buffer)"
proof -
  have w: "(511 :: byte) = 255"
    by simp
  have b: "encryptingBlockSize wide_block_keys = Some (JNumber (Fin (int 512)))"
    by (simp add: wide_block_keys_def)
  have "computePaddingFooter decimal_runtime [] wide_block_keys = Inr (replicate (511 + 1) (of_nat 511))"
    using computePaddingFooter_number [OF b, of decimal_runtime "[]"]
    by (simp del: replicate_Suc replicate.simps)
  then have f: "computePaddingFooter decimal_runtime [] wide_block_keys = Inr (replicate 512 255)"
    by (simp add: w del: replicate_Suc replicate.simps)
  have l: "last (replicate 512 (255 :: byte)) = 255"
    by simp
  have "replicate 512 (255 :: byte) \<noteq> []"
    by simp
  then have "removePadding (replicate 512 255) = Inr (take 256 (replicate 512 255))"
    by (simp add: removePadding_def reduceLength_def l slice_def clamp_index_def Let_def
        del: replicate_Suc replicate.simps take_replicate)
  then have r: "removePadding ([] @ replicate 512 255) = Inr (replicate 256 255)"
    by simp
  have "replicate 256 255 \<noteq> ([] :: buffer)"
    by simp
  with f r show ?thesis by simp
qed
subsection \<open>Signing and verifying with the derived keys\<close>

lemma hex_digit_inj:
  assumes "a < 16" "b < 16" "hex_digit a = hex_digit b"
  shows "a = b"
proof -
  have d: "distinct ''0123456789abcdef''" by simp
  have "length ''0123456789abcdef'' = 16" by simp
  with assms d show ?thesis
    unfolding hex_digit_def by (metis nth_eq_iff_index_eq)
qed

lemma hex_byte_inj:
  assumes "[hex_digit (unat x div 16), hex_digit (unat x mod 16)]
         = [hex_digit (unat y div 16), hex_digit (unat y mod 16)]"
  shows "x = (y :: byte)"
proof -
  have "unat x < 256" "unat y < 256"
    using unsigned_less [of x, where ?'a = nat] unsigned_less [of y, where ?'a = nat] by simp_all
  then have "unat x div 16 < 16" "unat y div 16 < 16" by simp_all
  moreover have "unat x mod 16 < 16" "unat y mod 16 < 16" by simp_all
  ultimately have "unat x div 16 = unat y div 16" "unat x mod 16 = unat y mod 16"
    using assms hex_digit_inj by auto
  then have "unat x = unat y"
    by (metis div_mult_mod_eq)
  then show ?thesis by (simp add: word_unat_eq_iff)
qed

lemma toString_hex_Cons:
  "toString_hex (x # xs) = hex_digit (unat x div 16) # hex_digit (unat x mod 16) # toString_hex xs"
  by (simp add: toString_hex_def)

lemma toString_hex_Nil: "toString_hex [] = []"
  by (simp add: toString_hex_def)

lemma toString_hex_inj: "toString_hex a = toString_hex b \<longleftrightarrow> a = b"
proof (induction a arbitrary: b)
  case Nil
  then show ?case by (cases b) (simp_all add: toString_hex_Nil toString_hex_Cons)
next
  case (Cons x xs)
  show ?case
  proof (cases b)
    case Nil
    then show ?thesis by (simp add: toString_hex_Nil toString_hex_Cons)
  next
    case (Cons y ys)
    show ?thesis
    proof
      assume "toString_hex (x # xs) = toString_hex b"
      then have h: "[hex_digit (unat x div 16), hex_digit (unat x mod 16)]
         = [hex_digit (unat y div 16), hex_digit (unat y mod 16)]"
        and t: "toString_hex xs = toString_hex ys"
        using Cons by (simp_all add: toString_hex_Cons)
      from h have "x = y" by (rule hex_byte_inj)
      moreover from t have "xs = ys" using Cons.IH by simp
      ultimately show "x # xs = b" using Cons by simp
    next
      assume "x # xs = b"
      then show "toString_hex (x # xs) = toString_hex b" by simp
    qed
  qed
qed

lemma slice_split:
  "slice (m @ s) 0 (int (length (m @ s)) - int (length s)) = m"
  "slice_from (m @ s) (int (length (m @ s)) - int (length s)) = s"
  by (simp_all add: slice_from_def slice_def clamp_index_def Let_def)

lemma verify_split:
  assumes sl: "signatureLength keys = Some (JNumber (Fin (int (length s))))" and pos: "s \<noteq> []"
  shows "verifyChunkSignatureWithDerivedKeys rt hmac (m @ s) keys = Inr (hmac (signingKey keys) m = s)"
proof -
  have "makeMessageChunkSignatureWithDerivedKeys hmac m keys = Inr (hmac (signingKey keys) m)"
    using sl pos by (simp add: makeMessageChunkSignatureWithDerivedKeys_def get_prop_def ToBoolean_def)
  then show ?thesis
    unfolding verifyChunkSignatureWithDerivedKeys_def sl get_prop_def ToNumber_def
    by (simp only: option.case jsval.case num_sub_Fin Buffer_slice_Fin Buffer_slice_end
        slice_split Let_def sum.case toString_hex_inj)
qed

lemma flip_bit_length: "length (flip_bit i b) = length b"
  by (simp add: flip_bit_def)

lemma xor_bit_neq: "j < 8 \<Longrightarrow> x XOR push_bit j 1 \<noteq> (x :: byte)"
proof
  assume j: "j < 8" and "x XOR push_bit j 1 = x"
  then have "x XOR (x XOR push_bit j 1) = x XOR x" by simp
  then have "push_bit j (1 :: byte) = 0"
    by (simp flip: xor.assoc)
  moreover have "bit (push_bit j (1 :: byte)) j"
    using j by (simp add: bit_simps)
  ultimately have "bit (0 :: byte) j" by (simp only:)
  then show False by simp
qed

lemma flip_bit_neq:
  assumes "i < 8 * length b"
  shows "flip_bit i b \<noteq> b"
proof -
  from assms have k: "i div 8 < length b" by simp
  have "i mod 8 < 8" by simp
  then have "b ! (i div 8) XOR push_bit (i mod 8) 1 \<noteq> b ! (i div 8)"
    by (rule xor_bit_neq)
  moreover have "flip_bit i b ! (i div 8) = b ! (i div 8) XOR push_bit (i mod 8) 1"
    using k by (simp add: flip_bit_def)
  ultimately show ?thesis by metis
qed

lemma flip_bit_append_left:
  assumes "i < 8 * length m"
  shows "flip_bit i (m @ s) = flip_bit i m @ s"
proof -
  from assms have "i div 8 < length m" by simp
  then show ?thesis
    by (simp add: flip_bit_def list_update_append nth_append)
qed

lemma flip_bit_append_right:
  assumes "8 * length m \<le> i"
  shows "flip_bit i (m @ s) = m @ flip_bit (i - 8 * length m) s"
proof -
  from assms have k: "length m \<le> i div 8" by simp
  have "(i - 8 * length m) div 8 = i div 8 - length m"
    using assms by simp
  moreover have "(i - 8 * length m) mod 8 = i mod 8"
    using assms by (metis mod_mult_self2 le_add_diff_inverse2 mult.commute)
  ultimately show ?thesis
    using k by (simp add: flip_bit_def list_update_append nth_append)
qed

text \<open>
  C4, for key sets whose \<open>signatureLength\<close> is the digest size of the HMAC, 20 bytes.
  The signature of a message is its HMAC under the signing key, and the message followed
  by its signature verifies. After a change of one bit in the signature part the chunk
  does not verify. After a change of one bit in the message part it does not verify
  either, given that the HMAC under the signing key tells the changed message from the
  original one.
\<close>

theorem verifyChunkSignatureWithDerivedKeys_roundtrip:
  assumes d: "digest_size hmac" and sl: "signatureLength keys = Some (JNumber (Fin 20))"
  shows "\<exists>sig. makeMessageChunkSignatureWithDerivedKeys hmac m keys = Inr sig
      \<and> sig = hmac (signingKey keys) m
      \<and> verifyChunkSignatureWithDerivedKeys rt hmac (m @ sig) keys = Inr True
      \<and> (\<forall>i. 8 * length m \<le> i \<and> i < 8 * length (m @ sig) \<longrightarrow>
             verifyChunkSignatureWithDerivedKeys rt hmac (flip_bit i (m @ sig)) keys = Inr False)
      \<and> (\<forall>i. i < 8 * length m
               \<and> hmac (signingKey keys) (flip_bit i m) \<noteq> hmac (signingKey keys) m \<longrightarrow>
             verifyChunkSignatureWithDerivedKeys rt hmac (flip_bit i (m @ sig)) keys = Inr False)"
proof -
  let ?sig = "hmac (signingKey keys) m"
  have len: "length ?sig = 20"
    using d by (simp add: digest_size_def)
  then have ne: "?sig \<noteq> []" by auto
  have sl': "signatureLength keys = Some (JNumber (Fin (int (length ?sig))))"
    using sl len by simp
  have a: "makeMessageChunkSignatureWithDerivedKeys hmac m keys = Inr ?sig"
    using sl by (simp add: makeMessageChunkSignatureWithDerivedKeys_def get_prop_def ToBoolean_def)
  have b: "verifyChunkSignatureWithDerivedKeys rt hmac (m @ ?sig) keys = Inr True"
    using verify_split [OF sl' ne, of rt hmac m] by simp
  have c: "verifyChunkSignatureWithDerivedKeys rt hmac (flip_bit i (m @ ?sig)) keys = Inr False"
    if "8 * length m \<le> i \<and> i < 8 * length (m @ ?sig)" for i
  proof -
    let ?s = "flip_bit (i - 8 * length m) ?sig"
    from that have "i - 8 * length m < 8 * length ?sig" by auto
    then have neq: "?s \<noteq> ?sig" by (rule flip_bit_neq)
    have l: "length ?s = length ?sig" by (rule flip_bit_length)
    then have "signatureLength keys = Some (JNumber (Fin (int (length ?s))))" "?s \<noteq> []"
      using sl' ne by auto
    from verify_split [OF this, of rt hmac m]
    have "verifyChunkSignatureWithDerivedKeys rt hmac (m @ ?s) keys = Inr False"
      using neq by simp
    moreover have "flip_bit i (m @ ?sig) = m @ ?s"
      using that by (simp add: flip_bit_append_right)
    ultimately show ?thesis by simp
  qed
  have e: "verifyChunkSignatureWithDerivedKeys rt hmac (flip_bit i (m @ ?sig)) keys = Inr False"
    if "i < 8 * length m \<and> hmac (signingKey keys) (flip_bit i m) \<noteq> ?sig" for i
  proof -
    have "flip_bit i (m @ ?sig) = flip_bit i m @ ?sig"
      using that by (simp add: flip_bit_append_left)
    with verify_split [OF sl' ne, of rt hmac "flip_bit i m"] that show ?thesis by simp
  qed
  from a b c e show ?thesis by blast
qed

theorem verifyChunkSignatureWithDerivedKeys_roundtrip_witness:
  "digest_size sample_mac \<and> signatureLength sample_keys = Some (JNumber (Fin 20))
   \<and> verifyChunkSignatureWithDerivedKeys decimal_runtime sample_mac
         ([9] @ sample_mac [1, 2] [9]) sample_keys = Inr True
   \<and> verifyChunkSignatureWithDerivedKeys decimal_runtime sample_mac
         (flip_bit 10 ([9] @ sample_mac [1, 2] [9])) sample_keys = Inr False
   \<and> sample_mac [1, 2] (flip_bit 3 [9]) \<noteq> sample_mac [1, 2] [9]
   \<and> verifyChunkSignatureWithDerivedKeys decimal_runtime sample_mac
         (flip_bit 3 ([9] @ sample_mac [1, 2] [9])) sample_keys = Inr False"
proof -
  have sl: "signatureLength sample_keys = Some (JNumber (Fin 20))"
    and sk: "signingKey sample_keys = [1, 2]"
    by (simp_all add: sample_keys_def)
  have f: "flip_bit 3 [9] = [1]"
    by (simp add: flip_bit_def)
  have n: "sample_mac [1, 2] [1] \<noteq> sample_mac [1, 2] [9]"
    by (simp add: sample_mac_def)
  from verifyChunkSignatureWithDerivedKeys_roundtrip [OF digest_size_sample_mac sl,
      of "[9]" decimal_runtime]
  show ?thesis
    using digest_size_sample_mac sl sk f n digest_size_sample_mac [unfolded digest_size_def]
    by simp
qed

text \<open>
  A key set that announces 32-byte signatures: the signature made is the 20-byte digest all
  the same, and the message followed by it does not verify, because the last 32 bytes of
  the chunk are taken for the signature.
\<close>

theorem verifyChunkSignatureWithDerivedKeys_long_signature:
  "makeMessageChunkSignatureWithDerivedKeys sample_mac [9] long_signature_keys
     = Inr (sample_mac [1, 2] [9])
   \<and> verifyChunkSignatureWithDerivedKeys decimal_runtime sample_mac
        ([9] @ sample_mac [1, 2] [9]) long_signature_keys
     = Inr False"
  by (simp add: makeMessageChunkSignatureWithDerivedKeys_def verifyChunkSignatureWithDerivedKeys_def
      long_signature_keys_def sample_keys_def sample_mac_def get_prop_def ToBoolean_def ToNumber_def
      num_sub_Fin Buffer_slice_Fin Buffer_slice_end slice_from_def slice_def clamp_index_def
      Let_def toString_hex_inj eval_nat_numeral)

text \<open>
  C5 at a key set that announces 32-byte signatures: the assert on the length does not
  compare, and the 20-byte digest is returned.
\<close>

theorem makeMessageChunkSignatureWithDerivedKeys_length_unchecked:
  "signatureLength long_signature_keys = Some (JNumber (Fin 32))
   \<and> makeMessageChunkSignatureWithDerivedKeys sample_mac [9] long_signature_keys
     = Inr (sample_mac (signingKey long_signature_keys) [9])
   \<and> length (sample_mac (signingKey long_signature_keys) [9]) = 20"
  by (simp add: makeMessageChunkSignatureWithDerivedKeys_def long_signature_keys_def sample_keys_def
      sample_mac_def get_prop_def ToBoolean_def)


section \<open>Proofs: chunked RSA encryption\<close>

lemma buffer_copy_at:
  assumes "length d \<le> length rest"
  shows "buffer_copy d (pre @ rest) (length pre) = pre @ d @ drop (length d) rest"
proof (cases "rest = []")
  case True
  with assms show ?thesis by (simp add: buffer_copy_def)
next
  case False
  then have "\<not> length pre \<ge> length (pre @ rest)" by simp
  then show ?thesis
    using assms unfolding buffer_copy_def by (simp add: Let_def)
qed

lemma length_concat_take:
  assumes "\<forall>j<length xs. length (xs ! j) = n" "i \<le> length xs"
  shows "length (concat (take i xs)) = i * n"
  using assms
proof (induction i)
  case 0 then show ?case by simp
next
  case (Suc i)
  then have "take (Suc i) xs = take i xs @ [xs ! i]"
    by (simp add: take_Suc_conv_app_nth)
  with Suc show ?case by simp
qed

lemma length_concat_take_le:
  assumes "\<forall>j<length xs. length (xs ! j) \<le> n" "i \<le> length xs"
  shows "length (concat (take i xs)) \<le> i * n"
  using assms
proof (induction i)
  case 0 then show ?case by simp
next
  case (Suc i)
  then have "take (Suc i) xs = take i xs @ [xs ! i]"
    by (simp add: take_Suc_conv_app_nth)
  moreover have "length (xs ! i) \<le> n" using Suc.prems by simp
  moreover have "length (concat (take i xs)) \<le> i * n" using Suc by simp
  ultimately show ?case by simp
qed

lemma publicEncrypt_loop_run:
  assumes len: "length blocks = nb"
    and enc: "\<forall>j<nb. pe (slice buffer (int (cs * j)) (int (cs * (j + 1)))) key alg = Inr (blocks ! j)
                  \<and> length (blocks ! j) = bs"
  shows "i \<le> nb \<Longrightarrow>
    publicEncrypt_loop pe buffer key bs cs alg nb i (concat (take i blocks) @ replicate ((nb - i) * bs) 0)
      = Inr (concat blocks)"
proof (induction "nb - i" arbitrary: i)
  case 0
  then have "i = nb" by simp
  then show ?case using len by (subst publicEncrypt_loop.simps) simp
next
  case (Suc x)
  then have lt: "i < nb" by simp
  have sz: "\<forall>j<length blocks. length (blocks ! j) = bs" using len enc by simp
  have li: "length (concat (take i blocks)) = i * bs"
    using length_concat_take [OF sz] lt len by simp
  have "(nb - i) * bs = bs + (nb - Suc i) * bs"
    using lt by (metis Suc_diff_Suc mult_Suc)
  then have rep: "replicate ((nb - i) * bs) (0 :: byte) = replicate bs 0 @ replicate ((nb - Suc i) * bs) 0"
    by (simp add: replicate_add)
  have bl: "length (blocks ! i) = bs" using enc lt by simp
  have "buffer_copy (blocks ! i) (concat (take i blocks) @ replicate ((nb - i) * bs) 0) (i * bs)
      = concat (take i blocks) @ blocks ! i @ drop (length (blocks ! i)) (replicate ((nb - i) * bs) 0)"
    using buffer_copy_at [of "blocks ! i" "replicate ((nb - i) * bs) 0" "concat (take i blocks)"] li bl rep
    by simp
  also have "\<dots> = concat (take (Suc i) blocks) @ replicate ((nb - Suc i) * bs) 0"
    using lt len bl rep by (simp add: take_Suc_conv_app_nth)
  finally have cp: "buffer_copy (blocks ! i) (concat (take i blocks) @ replicate ((nb - i) * bs) 0) (i * bs)
      = concat (take (Suc i) blocks) @ replicate ((nb - Suc i) * bs) 0" .
  have IH: "publicEncrypt_loop pe buffer key bs cs alg nb (Suc i)
       (concat (take (Suc i) blocks) @ replicate ((nb - Suc i) * bs) 0) = Inr (concat blocks)"
    using Suc lt by (intro Suc.hyps(1)) simp_all
  have e: "pe (slice buffer (int (cs * i)) (int (cs * (i + 1)))) key alg = Inr (blocks ! i)"
    using enc lt by simp
  show ?case
    apply (subst publicEncrypt_loop.simps)
    using lt e bl cp IH by (simp add: Let_def)
qed

lemma privateDecrypt_loop_run:
  assumes len: "length ds = nb"
    and dec: "\<forall>j<nb. pd (slice buffer (int (bs * j)) (int (min (bs * (j + 1)) (length buffer)))) key alg
                    = Inr (ds ! j) \<and> length (ds ! j) \<le> bs"
  shows "i \<le> nb \<Longrightarrow> length out = nb * bs \<Longrightarrow>
     take (length (concat (take i ds))) out = concat (take i ds) \<Longrightarrow>
     \<exists>out'. privateDecrypt_loop pd buffer key bs alg nb i (out, length (concat (take i ds)))
              = Inr (out', length (concat ds))
          \<and> length out' = nb * bs \<and> take (length (concat ds)) out' = concat ds"
proof (induction "nb - i" arbitrary: i out)
  case 0
  then have "i = nb" by simp
  with 0 len show ?case by (subst privateDecrypt_loop.simps) simp
next
  case (Suc x)
  then have lt: "i < nb" by simp
  let ?pre = "concat (take i ds)" and ?d = "ds ! i"
  let ?rest = "drop (length ?pre) out"
  have sz: "\<forall>j<length ds. length (ds ! j) \<le> bs" using len dec by simp
  have tot: "length ?pre \<le> i * bs"
    using length_concat_take_le [OF sz] lt len by simp
  have dl: "length ?d \<le> bs" using dec lt by simp
  have "i * bs + bs \<le> nb * bs"
    using lt by (metis Suc_leI mult_Suc mult_le_mono1 add.commute)
  with tot dl have fit: "length ?pre + length ?d \<le> length out"
    using Suc.prems(2) by linarith
  then have dr: "length ?d \<le> length ?rest" by simp
  have out: "out = ?pre @ ?rest"
    using Suc.prems(3) by (metis append_take_drop_id)
  have tk: "take (Suc i) ds = take i ds @ [?d]"
    using lt len by (simp add: take_Suc_conv_app_nth)
  let ?out1 = "?pre @ ?d @ drop (length ?d) ?rest"
  have cp: "buffer_copy ?d out (length ?pre) = ?out1"
    using buffer_copy_at [OF dr, of ?pre] out by simp
  have l1: "length ?out1 = nb * bs"
    using fit Suc.prems(2) by simp
  have n1: "length ?pre + length ?d = length (concat (take (Suc i) ds))"
    using tk by simp
  have t1: "take (length (concat (take (Suc i) ds))) ?out1 = concat (take (Suc i) ds)"
    using tk by simp
  have "\<exists>out'. privateDecrypt_loop pd buffer key bs alg nb (Suc i)
              (?out1, length (concat (take (Suc i) ds))) = Inr (out', length (concat ds))
          \<and> length out' = nb * bs \<and> take (length (concat ds)) out' = concat ds"
    using Suc.hyps(2) lt l1 t1 by (intro Suc.hyps(1)) simp_all
  then obtain out' where
    r: "privateDecrypt_loop pd buffer key bs alg nb (Suc i)
              (?out1, length (concat (take (Suc i) ds))) = Inr (out', length (concat ds))"
    and p: "length out' = nb * bs" "take (length (concat ds)) out' = concat ds"
    by blast
  have e: "pd (slice buffer (int (bs * i)) (int (min (bs * (i + 1)) (length buffer)))) key alg = Inr ?d"
    using dec lt by simp
  have "privateDecrypt_loop pd buffer key bs alg nb i (out, length ?pre) = Inr (out', length (concat ds))"
    apply (subst privateDecrypt_loop.simps)
    using lt e cp n1 r by (simp add: Let_def)
  with p show ?case by blast
qed

lemma slice_take_drop: "slice b (int i) (int (i + n)) = take n (drop i b)"
proof (cases "i < length b")
  case True
  then have "min (i + n) (length b) - i = min n (length b - i)"
    by (auto simp: min_def)
  moreover have "take (min n (length b - i)) (drop i b) = take n (drop i b)"
    by (simp add: min_def)
  ultimately show ?thesis
    using True slice_nat [of b i "i + n"] by (simp add: min_absorb1)
next
  case False
  then show ?thesis using slice_nat [of b i "i + n"] by simp
qed

lemma slice_min_length: "slice b (int i) (int (min e (length b))) = slice b (int i) (int e)"
  by (simp add: slice_nat)

lemma slice_chunk: "slice b (int (n * j)) (int (n * (j + 1))) = take n (drop (n * j) b)"
proof -
  have "n * (j + 1) = n * j + n" by simp
  then show ?thesis by (simp only: slice_take_drop)
qed

lemma slice_chunk_min:
  "slice b (int (n * j)) (int (min (n * (j + 1)) (length b))) = take n (drop (n * j) b)"
  by (simp only: slice_min_length slice_chunk)

lemma concat_chunks_upto:
  "concat (map (\<lambda>j. take n (drop (n * j) b)) [0..<k]) = take (n * k) b"
proof (induction k)
  case 0 then show ?case by simp
next
  case (Suc k)
  have "take (n * k) b @ take n (drop (n * k) b) = take (n * k + n) b"
    by (simp add: take_add)
  moreover have "n * Suc k = n * k + n" by simp
  ultimately show ?case using Suc by (simp add: add.commute)
qed

lemma ceil_div_covers: "0 < n \<Longrightarrow> a \<le> n * ceil_div a n"
proof -
  assume n: "0 < n"
  have "a + n - 1 = (a + n - 1) div n * n + (a + n - 1) mod n"
    by simp
  moreover have "(a + n - 1) mod n \<le> n - 1"
    using n by (metis Suc_pred' less_Suc_eq_le mod_less_divisor)
  ultimately have "a + n - 1 \<le> (a + n - 1) div n * n + (n - 1)"
    by linarith
  then have "a \<le> (a + n - 1) div n * n"
    using n by linarith
  then show ?thesis by (simp add: ceil_div_def mult.commute)
qed

lemma ceil_div_mult: "0 < n \<Longrightarrow> ceil_div (k * n) n = k"
proof -
  assume n: "0 < n"
  then have "k * n + n - 1 = n - 1 + k * n" by simp
  moreover have "(n - 1 + k * n) div n = k"
    using n by (simp only: div_mult_self1 [OF less_imp_neq [OF n, symmetric, THEN not_sym, THEN not_sym]]) simp
  ultimately show ?thesis by (simp only: ceil_div_def)
qed

lemma concat_chunks:
  assumes "0 < n"
  shows "concat (chunks n b) = b"
proof -
  have "concat (chunks n b) = take (n * ceil_div (length b) n) b"
    unfolding chunks_def by (simp only: slice_chunk concat_chunks_upto)
  then show ?thesis using ceil_div_covers [OF assms, of "length b"] by simp
qed

lemma chunks_nth:
  "j < ceil_div (length b) n \<Longrightarrow> chunks n b ! j = take n (drop (n * j) b)"
  unfolding chunks_def by (simp only: slice_chunk) simp

lemma length_chunks: "length (chunks n b) = ceil_div (length b) n"
  by (simp add: chunks_def)

lemma drop_concat_blocks:
  assumes "\<forall>c \<in> set blocks. length c = n"
  shows "drop (n * j) (concat blocks) = concat (drop j blocks)"
  using assms
proof (induction blocks arbitrary: j)
  case Nil then show ?case by simp
next
  case (Cons c cs)
  show ?case
  proof (cases j)
    case 0 then show ?thesis by simp
  next
    case (Suc k)
    with Cons show ?thesis by simp
  qed
qed

lemma block_of_concat:
  assumes sz: "\<forall>c \<in> set blocks. length c = n" and j: "j < length blocks"
  shows "take n (drop (n * j) (concat blocks)) = blocks ! j"
proof -
  from j have "drop j blocks = blocks ! j # drop (Suc j) blocks"
    by (simp add: Cons_nth_drop_Suc)
  moreover have "length (blocks ! j) = n" using sz j by simp
  ultimately show ?thesis
    by (simp add: drop_concat_blocks [OF sz])
qed

lemma length_concat_blocks:
  assumes "\<forall>c \<in> set blocks. length c = n"
  shows "length (concat blocks) = length blocks * n"
  using assms by (induction blocks) simp_all

lemma chunks_of_concat:
  assumes n: "0 < n" and sz: "\<forall>c \<in> set blocks. length c = n"
  shows "chunks n (concat blocks) = blocks"
proof (rule nth_equalityI)
  have l: "length (concat blocks) = length blocks * n"
    by (rule length_concat_blocks [OF sz])
  show len: "length (chunks n (concat blocks)) = length blocks"
    by (simp only: length_chunks l ceil_div_mult [OF n])
  fix j assume "j < length (chunks n (concat blocks))"
  then have j: "j < length blocks" using len by simp
  then have "j < ceil_div (length (concat blocks)) n"
    by (simp only: l ceil_div_mult [OF n])
  then have "chunks n (concat blocks) ! j = take n (drop (n * j) (concat blocks))"
    by (rule chunks_nth)
  also have "\<dots> = blocks ! j"
    by (rule block_of_concat [OF sz j])
  finally show "chunks n (concat blocks) ! j = blocks ! j" .
qed

lemma length_chunk_le:
  assumes "p \<in> set (chunks n b)"
  shows "length p \<le> n"
proof -
  from assms obtain j where "p = slice b (int (n * j)) (int (n * (j + 1)))"
    by (auto simp: chunks_def)
  then show ?thesis by (simp only: slice_chunk) simp
qed

lemma publicEncrypt_long_blocks:
  assumes sup: "supported" and pad: "padding < bs"
    and enc: "list_all2 (\<lambda>p c. pe p key (default_padding alg) = Inr c \<and> length c = bs)
                (chunks (bs - padding) b) blocks"
  shows "publicEncrypt_long supported pe b key bs padding alg = Inr (concat blocks)"
proof -
  let ?cs = "bs - padding" and ?nb = "ceil_div (length b) (bs - padding)"
  have len: "length blocks = ?nb"
    using list_all2_lengthD [OF enc] by (simp add: length_chunks)
  have "\<forall>j<?nb. pe (slice b (int (?cs * j)) (int (?cs * (j + 1)))) key (default_padding alg) = Inr (blocks ! j)
            \<and> length (blocks ! j) = bs"
  proof (intro allI impI)
    fix j assume j: "j < ?nb"
    then have "j < length (chunks ?cs b)" by (simp add: length_chunks)
    from list_all2_nthD [OF enc this]
    have "pe (chunks ?cs b ! j) key (default_padding alg) = Inr (blocks ! j) \<and> length (blocks ! j) = bs" .
    moreover have "chunks ?cs b ! j = slice b (int (?cs * j)) (int (?cs * (j + 1)))"
      using j by (simp add: chunks_def)
    ultimately show "pe (slice b (int (?cs * j)) (int (?cs * (j + 1)))) key (default_padding alg) = Inr (blocks ! j)
            \<and> length (blocks ! j) = bs" by simp
  qed
  from publicEncrypt_loop_run [where pe = pe and buffer = b and key = key and cs = ?cs
      and alg = "default_padding alg" and bs = bs and i = 0, OF len this]
  have "publicEncrypt_loop pe b key bs ?cs (default_padding alg) ?nb 0 (replicate (?nb * bs) 0)
      = Inr (concat blocks)"
    by simp
  then show ?thesis
    using sup pad
    by (simp add: publicEncrypt_long_def ensure_crypto_installed_def new_Buffer_def Let_def)
qed

lemma privateDecrypt_long_concat:
  assumes sup: "supported" and bs: "0 < bs"
    and dec: "list_all2 (\<lambda>blk d. pd blk key (default_padding alg) = Inr d \<and> length d \<le> bs)
                (chunks bs c) ds"
  shows "privateDecrypt_long supported pd c key bs alg = Inr (concat ds)"
proof -
  let ?nb = "ceil_div (length c) bs"
  have len: "length ds = ?nb"
    using list_all2_lengthD [OF dec] by (simp add: length_chunks)
  have "\<forall>j<?nb. pd (slice c (int (bs * j)) (int (min (bs * (j + 1)) (length c)))) key (default_padding alg)
              = Inr (ds ! j) \<and> length (ds ! j) \<le> bs"
  proof (intro allI impI)
    fix j assume j: "j < ?nb"
    then have "j < length (chunks bs c)" by (simp add: length_chunks)
    from list_all2_nthD [OF dec this]
    have "pd (chunks bs c ! j) key (default_padding alg) = Inr (ds ! j) \<and> length (ds ! j) \<le> bs" .
    moreover have "chunks bs c ! j = slice c (int (bs * j)) (int (min (bs * (j + 1)) (length c)))"
      using chunks_nth [OF j] by (simp only: slice_chunk_min)
    ultimately show "pd (slice c (int (bs * j)) (int (min (bs * (j + 1)) (length c)))) key (default_padding alg)
              = Inr (ds ! j) \<and> length (ds ! j) \<le> bs" by simp
  qed
  from privateDecrypt_loop_run [where pd = pd and buffer = c and key = key
      and alg = "default_padding alg" and bs = bs and i = 0 and out = "new_Buffer (?nb * bs)",
      OF len this]
  obtain out' where
    "privateDecrypt_loop pd c key bs (default_padding alg) ?nb 0 (new_Buffer (?nb * bs), 0)
       = Inr (out', length (concat ds))"
    and "take (length (concat ds)) out' = concat ds"
    by (auto simp: new_Buffer_def)
  then show ?thesis
    using sup bs
    by (simp add: privateDecrypt_long_def ensure_crypto_installed_def Let_def slice_0)
qed

text \<open>
  C7. With a backend, a padding overhead below the block size and a matching key pair,
  \<open>publicEncrypt_long\<close> returns the concatenation of
  \<open>ceil(len(b) / (block_size - padding))\<close> ciphertext blocks of \<open>block_size\<close> bytes,
  block \<open>i\<close> being the encryption of the \<open>i\<close>-th chunk of the buffer, and the chunks put
  end to end are the buffer; \<open>privateDecrypt_long\<close> cuts this ciphertext into the same
  blocks, each decrypts to its chunk, and the result is the buffer, with nothing behind it.
\<close>

theorem publicEncrypt_long_privateDecrypt_long:
  assumes sup: "supported" and pad: "padding < block_size"
    and keys: "matching_keys pe pd pub priv block_size padding (default_padding alg)"
  shows "\<exists>blocks.
      publicEncrypt_long supported pe b pub block_size padding alg = Inr (concat blocks)
    \<and> length blocks = ceil_div (length b) (block_size - padding)
    \<and> (\<forall>c \<in> set blocks. length c = block_size)
    \<and> list_all2 (\<lambda>p c. pe p pub (default_padding alg) = Inr c)
          (chunks (block_size - padding) b) blocks
    \<and> concat (chunks (block_size - padding) b) = b
    \<and> list_all2 (\<lambda>c p. pd c priv (default_padding alg) = Inr p)
          (chunks block_size (concat blocks)) (chunks (block_size - padding) b)
    \<and> privateDecrypt_long supported pd (concat blocks) priv block_size alg = Inr b"
proof -
  let ?cs = "block_size - padding" and ?a = "default_padding alg"
  have cs: "0 < ?cs" and bs: "0 < block_size" using pad by simp_all
  from keys have "\<forall>p. \<exists>c. length p \<le> ?cs \<longrightarrow>
      pe p pub ?a = Inr c \<and> length c = block_size \<and> pd c priv ?a = Inr p"
    unfolding matching_keys_def by blast
  then obtain f where f: "\<And>p. length p \<le> ?cs \<Longrightarrow>
      pe p pub ?a = Inr (f p) \<and> length (f p) = block_size \<and> pd (f p) priv ?a = Inr p"
    by metis
  define blocks where "blocks = map f (chunks ?cs b)"
  have in_range: "length p \<le> ?cs" if "p \<in> set (chunks ?cs b)" for p
    using that by (rule length_chunk_le)
  have sz: "\<forall>c \<in> set blocks. length c = block_size"
    using f in_range by (auto simp: blocks_def)
  have len: "length blocks = ceil_div (length b) ?cs"
    by (simp add: blocks_def length_chunks)
  have enc: "list_all2 (\<lambda>p c. pe p pub ?a = Inr c \<and> length c = block_size) (chunks ?cs b) blocks"
    using f in_range by (simp add: blocks_def list_all2_map2 list_all2_same)
  then have enc': "list_all2 (\<lambda>p c. pe p pub ?a = Inr c) (chunks ?cs b) blocks"
    by (rule list_all2_mono) simp
  have e: "publicEncrypt_long supported pe b pub block_size padding alg = Inr (concat blocks)"
    by (rule publicEncrypt_long_blocks [where pe = pe and key = pub and alg = alg, OF sup pad enc])
  have cat: "concat (chunks ?cs b) = b"
    by (rule concat_chunks [OF cs])
  have ch: "chunks block_size (concat blocks) = blocks"
    by (rule chunks_of_concat [OF bs sz])
  have dec: "list_all2 (\<lambda>c p. pd c priv ?a = Inr p \<and> length p \<le> block_size) blocks (chunks ?cs b)"
  proof -
    have "cs' \<le> block_size" if "cs' \<le> ?cs" for cs' using that by simp
    then show ?thesis
      using f in_range by (simp add: blocks_def list_all2_map1 list_all2_same)
  qed
  then have dec': "list_all2 (\<lambda>c p. pd c priv ?a = Inr p) (chunks block_size (concat blocks)) (chunks ?cs b)"
    unfolding ch by (rule list_all2_mono) simp
  have "privateDecrypt_long supported pd (concat blocks) priv block_size alg = Inr (concat (chunks ?cs b))"
    using dec
    by (intro privateDecrypt_long_concat [where pd = pd and key = priv and alg = alg, OF sup bs])
      (simp only: ch)
  then have d: "privateDecrypt_long supported pd (concat blocks) priv block_size alg = Inr b"
    by (simp only: cat)
  show ?thesis
    by (intro exI [of _ blocks] conjI e len sz enc' cat dec' d)
qed

lemma matching_sample_keys:
  "matching_keys sample_encrypt sample_decrypt [] [] 4 2 RSA_PKCS1_PADDING"
proof -
  have "unat (of_nat (length p) :: byte) = length p" if "length p \<le> 2" for p :: buffer
    using that by (simp add: unat_of_nat)
  then show ?thesis
    by (auto simp: matching_keys_def sample_encrypt_def sample_decrypt_def)
qed

theorem publicEncrypt_long_privateDecrypt_long_witness:
  "matching_keys sample_encrypt sample_decrypt [] [] 4 2 (default_padding None)
   \<and> publicEncrypt_long True sample_encrypt [1, 2, 3] [] 4 2 None = Inr [2, 1, 2, 0, 1, 3, 0, 0]
   \<and> privateDecrypt_long True sample_decrypt [2, 1, 2, 0, 1, 3, 0, 0] [] 4 None = Inr [1, 2, 3]"
proof -
  have m: "matching_keys sample_encrypt sample_decrypt [] [] 4 2 (default_padding None)"
    using matching_sample_keys by (simp add: default_padding_def)
  have e: "publicEncrypt_long True sample_encrypt [1, 2, 3] [] 4 2 None = Inr [2, 1, 2, 0, 1, 3, 0, 0]"
    by code_simp
  have pad: "(2 :: nat) < 4" by simp
  from publicEncrypt_long_privateDecrypt_long [OF TrueI pad m, of "[1, 2, 3]"]
  obtain blocks where
    "publicEncrypt_long True sample_encrypt [1, 2, 3] [] 4 2 None = Inr (concat blocks)"
    and d: "privateDecrypt_long True sample_decrypt (concat blocks) [] 4 None = Inr [1, 2, 3]"
    by blast
  with e have "concat blocks = [2, 1, 2, 0, 1, 3, 0, 0]" by simp
  with d have "privateDecrypt_long True sample_decrypt [2, 1, 2, 0, 1, 3, 0, 0] [] 4 None = Inr [1, 2, 3]"
    by simp
  with e m show ?thesis by blast
qed

section \<open>Proofs: PEM text\<close>

subsection \<open>Base64\<close>

lemma unat16_of_nat: "n < 65536 \<Longrightarrow> unat (of_nat n :: 16 word) = n"
  by (simp add: unat_of_nat)

lemma b64_value_of_nat:
  assumes "x < 65536"
  shows "b64_value (of_nat x) =
      (if 65 \<le> x \<and> x \<le> 90 then Some (x - 65)
       else if 97 \<le> x \<and> x \<le> 122 then Some (x - 71)
       else if 48 \<le> x \<and> x \<le> 57 then Some (x + 4)
       else if x = 43 \<or> x = 45 then Some 62
       else if x = 47 \<or> x = 95 then Some 63
       else None)"
  unfolding b64_value_def Let_def by (simp only: unat16_of_nat [OF assms])

lemma b64_value_nat:
  fixes n :: nat
  assumes "n < 64"
  defines "x \<equiv> (if n < 26 then 65 + n else if n < 52 then 71 + n else if n < 62 then n - 4
      else if n = 62 then 43 else 47)"
  shows "(if 65 \<le> x \<and> x \<le> 90 then Some (x - 65)
       else if 97 \<le> x \<and> x \<le> 122 then Some (x - 71)
       else if 48 \<le> x \<and> x \<le> 57 then Some (x + 4)
       else if x = 43 \<or> x = 45 then Some 62
       else if x = 47 \<or> x = 95 then Some 63
       else None) = Some n"
proof -
  consider "n < 26" | "26 \<le> n" "n < 52" | "52 \<le> n" "n < 62" | "n = 62" | "n = 63"
    using assms(1) by linarith
  then show ?thesis
  proof cases
    case 1 then have "x = 65 + n" by (simp add: x_def)
    with 1 show ?thesis by simp
  next
    case 2 then have "x = 71 + n" by (simp add: x_def)
    with 2 show ?thesis by simp
  next
    case 3 then have "x = n - 4" by (simp add: x_def)
    moreover have "48 \<le> n - 4" "n - 4 \<le> 57" "n - 4 + 4 = n" using 3 by simp_all
    ultimately show ?thesis by simp
  next
    case 4 then have "x = 43" by (simp add: x_def)
    with 4 show ?thesis by simp
  next
    case 5 then have "x = 47" by (simp add: x_def)
    with 5 show ?thesis by simp
  qed
qed

lemma b64_char_of_nat:
  "b64_char n = of_nat (if n < 26 then 65 + n else if n < 52 then 71 + n else if n < 62 then n - 4
      else if n = 62 then 43 else 47)"
  by (simp add: b64_char_def)

lemma b64_value_char:
  assumes "n < 64"
  shows "b64_value (b64_char n) = Some n"
proof -
  let ?x = "(if n < 26 then 65 + n else if n < 52 then 71 + n else if n < 62 then n - 4
      else if n = 62 then 43 else 47)"
  have "?x < 65536" using assms by (simp split: if_splits) arith
  then have "b64_value (of_nat ?x) =
      (if 65 \<le> ?x \<and> ?x \<le> 90 then Some (?x - 65)
       else if 97 \<le> ?x \<and> ?x \<le> 122 then Some (?x - 71)
       else if 48 \<le> ?x \<and> ?x \<le> 57 then Some (?x + 4)
       else if ?x = 43 \<or> ?x = 45 then Some 62
       else if ?x = 47 \<or> ?x = 95 then Some 63
       else None)"
    by (rule b64_value_of_nat)
  also have "\<dots> = Some n"
    by (rule b64_value_nat [OF assms])
  finally show ?thesis
    by (simp only: b64_char_of_nat)
qed

lemma b64_char_not_pad: "n < 64 \<Longrightarrow> b64_char n \<noteq> 61"
proof
  assume n: "n < 64" and "b64_char n = 61"
  then have "b64_value (b64_char n) = b64_value 61" by simp
  moreover have "b64_value 61 = None" by (simp add: b64_value_def)
  ultimately show False using b64_value_char [OF n] by simp
qed

lemma unat_b64_char:
  assumes "n < 64"
  shows "unat (b64_char n) = (if n < 26 then 65 + n else if n < 52 then 71 + n else if n < 62 then n - 4
      else if n = 62 then 43 else 47)"
proof -
  let ?x = "(if n < 26 then 65 + n else if n < 52 then 71 + n else if n < 62 then n - 4
      else if n = 62 then 43 else 47)"
  have "?x < 65536" using assms by (simp split: if_splits) arith
  then have "unat (of_nat ?x :: 16 word) = ?x" by (rule unat16_of_nat)
  then show ?thesis by (simp only: b64_char_of_nat)
qed

lemma body_char_unat:
  "body_char c \<longleftrightarrow> (unat c = 47 \<or> unat c = 43 \<or> unat c = 61 \<or> (97 \<le> unat c \<and> unat c \<le> 122)
      \<or> (65 \<le> unat c \<and> unat c \<le> 90) \<or> (48 \<le> unat c \<and> unat c \<le> 57) \<or> unat c = 13 \<or> unat c = 10)"
  by (simp add: body_char_def word_le_nat_alt word_unat_eq_iff)

lemma body_char_b64:
  assumes "n < 64"
  shows "body_char (b64_char n)"
  unfolding body_char_unat unat_b64_char [OF assms] using assms by (simp split: if_splits) arith

lemma b64_char_not_nl:
  assumes "n < 64"
  shows "b64_char n \<noteq> 10"
proof
  assume "b64_char n = 10"
  then have "unat (b64_char n) = 10" by simp
  then show False unfolding unat_b64_char [OF assms] using assms by (simp split: if_splits)
qed

lemma byte_lt: "unat (x :: byte) < 256"
  using unsigned_less [of x, where ?'a = nat] by simp

lemma sextet_nat:
  fixes x y z :: nat
  assumes "x < 256" "y < 256" "z < 256"
  shows "x div 4 < 64" "x mod 4 * 16 + y div 16 < 64"
    "y mod 16 * 4 + z div 64 < 64" "z mod 64 < 64"
    "y mod 16 * 4 < 64" "x mod 4 * 16 < 64"
proof -
  have a: "x mod 4 < 4" "y mod 16 < 16" "z mod 64 < 64" by simp_all
  have b: "x div 4 < 64" "y div 16 < 16" "z div 64 < 4" using assms by simp_all
  show "x div 4 < 64" by (rule b)
  show "x mod 4 * 16 + y div 16 < 64" using a(1) b(2) by linarith
  show "y mod 16 * 4 + z div 64 < 64" using a(2) b(3) by linarith
  show "z mod 64 < 64" by (rule a)
  show "y mod 16 * 4 < 64" using a(2) by linarith
  show "x mod 4 * 16 < 64" using a(1) by linarith
qed

lemma div_mod_pack:
  fixes a q m :: nat
  assumes "q < m"
  shows "(a * m + q) div m = a" "(a * m + q) mod m = q"
  using assms by simp_all

lemma regroup:
  fixes x y z :: nat
  assumes "x < 256" "y < 256" "z < 256"
  shows "x div 4 * 4 + (x mod 4 * 16 + y div 16) div 16 = x"
    "(x mod 4 * 16 + y div 16) mod 16 * 16 + (y mod 16 * 4 + z div 64) div 4 = y"
    "(y mod 16 * 4 + z div 64) mod 4 * 64 + z mod 64 = z"
    "(x mod 4 * 16 + y div 16) mod 16 * 16 + (y mod 16 * 4) div 4 = y"
    "x div 4 * 4 + (x mod 4 * 16) div 16 = x"
proof -
  have q: "y div 16 < 16" "z div 64 < 4" using assms by simp_all
  have p1: "(x mod 4 * 16 + y div 16) div 16 = x mod 4" "(x mod 4 * 16 + y div 16) mod 16 = y div 16"
    using div_mod_pack [OF q(1), of "x mod 4"] by simp_all
  have p2: "(y mod 16 * 4 + z div 64) div 4 = y mod 16" "(y mod 16 * 4 + z div 64) mod 4 = z div 64"
    using div_mod_pack [OF q(2), of "y mod 16"] by simp_all
  show "x div 4 * 4 + (x mod 4 * 16 + y div 16) div 16 = x"
    by (simp only: p1) simp
  show "(x mod 4 * 16 + y div 16) mod 16 * 16 + (y mod 16 * 4 + z div 64) div 4 = y"
    by (simp only: p1 p2) simp
  show "(y mod 16 * 4 + z div 64) mod 4 * 64 + z mod 64 = z"
    by (simp only: p2) simp
  show "(x mod 4 * 16 + y div 16) mod 16 * 16 + (y mod 16 * 4) div 4 = y"
    by (simp only: p1) simp
  show "x div 4 * 4 + (x mod 4 * 16) div 16 = x"
    by simp
qed

lemma regroup_bytes:
  fixes x y z :: byte
  shows "of_nat (unat x div 4 * 4 + (unat x mod 4 * 16 + unat y div 16) div 16) = x"
    "of_nat ((unat x mod 4 * 16 + unat y div 16) mod 16 * 16 + (unat y mod 16 * 4 + unat z div 64) div 4) = y"
    "of_nat ((unat y mod 16 * 4 + unat z div 64) mod 4 * 64 + unat z mod 64) = z"
    "of_nat ((unat x mod 4 * 16 + unat y div 16) mod 16 * 16 + (unat y mod 16 * 4) div 4) = y"
    "of_nat (unat x div 4 * 4 + (unat x mod 4 * 16) div 16) = x"
  by (simp_all only: regroup [OF byte_lt byte_lt byte_lt] of_nat_unat ucast_id)

lemmas sextet_bounds = sextet_nat [OF byte_lt byte_lt byte_lt]

lemma takeWhile_b64:
  assumes "a < 64"
  shows "takeWhile (\<lambda>c. c \<noteq> 61) (b64_char a # r) = b64_char a # takeWhile (\<lambda>c. c \<noteq> 61) r"
  using b64_char_not_pad [OF assms] by simp

lemma map_filter_b64:
  assumes "a < 64"
  shows "List.map_filter b64_value (b64_char a # r) = a # List.map_filter b64_value r"
  using b64_value_char [OF assms] by (simp add: map_filter_simps)

lemma dec4:
  assumes "a < 64" "b < 64" "c < 64" "d < 64"
  shows "b64_bytes (List.map_filter b64_value
           (takeWhile (\<lambda>c. c \<noteq> 61) (b64_char a # b64_char b # b64_char c # b64_char d # r)))
       = of_nat (a * 4 + b div 16) # of_nat (b mod 16 * 16 + c div 4) # of_nat (c mod 4 * 64 + d)
         # b64_bytes (List.map_filter b64_value (takeWhile (\<lambda>c. c \<noteq> 61) r))"
  by (simp only: append.simps takeWhile_b64 [OF assms(1)] takeWhile_b64 [OF assms(2)]
      takeWhile_b64 [OF assms(3)] takeWhile_b64 [OF assms(4)]
      map_filter_b64 [OF assms(1)] map_filter_b64 [OF assms(2)]
      map_filter_b64 [OF assms(3)] map_filter_b64 [OF assms(4)] b64_bytes.simps)

lemma map_filter_Nil: "List.map_filter f [] = []"
  by (simp add: map_filter_simps)

lemma takeWhile_pad: "takeWhile (\<lambda>c. c \<noteq> 61) ((61 :: 16 word) # r) = []"
  by simp

lemma dec3:
  assumes "a < 64" "b < 64" "c < 64"
  shows "b64_bytes (List.map_filter b64_value
           (takeWhile (\<lambda>c. c \<noteq> 61) [b64_char a, b64_char b, b64_char c, 61]))
       = [of_nat (a * 4 + b div 16), of_nat (b mod 16 * 16 + c div 4)]"
  by (simp only: takeWhile_b64 [OF assms(1)] takeWhile_b64 [OF assms(2)]
      takeWhile_b64 [OF assms(3)] takeWhile_pad
      map_filter_b64 [OF assms(1)] map_filter_b64 [OF assms(2)]
      map_filter_b64 [OF assms(3)] map_filter_Nil b64_bytes.simps)

lemma dec2:
  assumes "a < 64" "b < 64"
  shows "b64_bytes (List.map_filter b64_value
           (takeWhile (\<lambda>c. c \<noteq> 61) [b64_char a, b64_char b, 61, 61]))
       = [of_nat (a * 4 + b div 16)]"
  by (simp only: takeWhile_b64 [OF assms(1)] takeWhile_b64 [OF assms(2)] takeWhile_pad
      map_filter_b64 [OF assms(1)] map_filter_b64 [OF assms(2)] map_filter_Nil b64_bytes.simps)

lemma base64_roundtrip_gen:
  "b64_bytes (List.map_filter b64_value (takeWhile (\<lambda>c. c \<noteq> 61) (toString_base64 b))) = b"
proof (induction b rule: toString_base64.induct)
  case (1 x y z bs)
  show ?case
    by (simp only: toString_base64.simps dec4 [OF sextet_bounds(1-4)] regroup_bytes "1.IH"
        append.simps)
next
  case (2 x y)
  show ?case
    by (simp only: toString_base64.simps dec3 [OF sextet_bounds(1,2,5)] regroup_bytes)
next
  case (3 x)
  show ?case
    by (simp only: toString_base64.simps dec2 [OF sextet_bounds(1,6)] regroup_bytes)
next
  case 4
  show ?case by (simp add: map_filter_simps)
qed

lemma base64_roundtrip: "Buffer_from_base64 (toString_base64 b) = b"
  by (simp add: Buffer_from_base64_def base64_roundtrip_gen)

subsection \<open>The loops of \<open>toPem\<close> and \<open>readPEM\<close>\<close>

lemma js_nl: "js ''\<newline>'' = [10]"
  by (simp add: js_def)

lemma toPem_loop_step:
  assumes "b \<noteq> []"
  shows "toPem_loop str b = toPem_loop (str @ take 64 b @ [10]) (drop 64 b)"
proof -
  have "toPem_loop str b =
     (if b \<noteq> [] then toPem_loop (str @ take 64 b @ js ''\<newline>'') (drop 64 b) else str)"
    by (rule toPem_loop.simps)
  with assms show ?thesis by (simp add: js_nl)
qed

lemma toPem_loop_Nil: "toPem_loop str [] = str"
proof -
  have "toPem_loop str [] =
     (if [] \<noteq> ([] :: jsstring) then toPem_loop (str @ take 64 [] @ js ''\<newline>'') (drop 64 []) else str)"
    by (rule toPem_loop.simps)
  then show ?thesis by simp
qed

lemma toPem_loop_acc: "toPem_loop str b = str @ toPem_loop [] b"
proof (induction b arbitrary: str rule: length_induct)
  case (1 b)
  show ?case
  proof (cases "b = []")
    case True
    then show ?thesis by (simp add: toPem_loop_Nil)
  next
    case False
    then have "length (drop 64 b) < length b" by simp
    with 1 have IH: "toPem_loop x (drop 64 b) = x @ toPem_loop [] (drop 64 b)" for x
      by blast
    have "toPem_loop str b = (str @ take 64 b @ [10]) @ toPem_loop [] (drop 64 b)"
      by (simp only: toPem_loop_step [OF False] IH [of "str @ take 64 b @ [10]"])
    moreover have "toPem_loop [] b = (take 64 b @ [10]) @ toPem_loop [] (drop 64 b)"
      using toPem_loop_step [OF False, of "[]"] IH [of "take 64 b @ [10]"] by simp
    ultimately show ?thesis by simp
  qed
qed

lemma toPem_loop_lines:
  "\<exists>ls. toPem_loop [] b = concat (map (\<lambda>l. l @ [10]) ls) \<and> concat ls = b
     \<and> (\<forall>l \<in> set ls. l \<noteq> [] \<and> length l \<le> 64) \<and> (\<forall>l \<in> set (butlast ls). length l = 64)"
proof (induction b rule: length_induct)
  case (1 b)
  show ?case
  proof (cases "b = []")
    case True
    then have "toPem_loop [] b = concat (map (\<lambda>l. l @ [10]) [])" by (simp add: toPem_loop_Nil)
    with True show ?thesis by (intro exI [of _ "[]"]) simp
  next
    case False
    then have "length (drop 64 b) < length b" by simp
    with 1 obtain ls where ls: "toPem_loop [] (drop 64 b) = concat (map (\<lambda>l. l @ [10]) ls)"
      "concat ls = drop 64 b" "\<forall>l \<in> set ls. l \<noteq> [] \<and> length l \<le> 64"
      "\<forall>l \<in> set (butlast ls). length l = 64"
      by blast
    have "toPem_loop [] b = toPem_loop ([] @ take 64 b @ [10]) (drop 64 b)"
      by (rule toPem_loop_step [OF False])
    also have "\<dots> = ([] @ take 64 b @ [10]) @ toPem_loop [] (drop 64 b)"
      by (rule toPem_loop_acc)
    finally have a: "toPem_loop [] b = concat (map (\<lambda>l. l @ [10]) (take 64 b # ls))"
      using ls(1) by simp
    have b: "concat (take 64 b # ls) = b" using ls(2) by simp
    have c: "\<forall>l \<in> set (take 64 b # ls). l \<noteq> [] \<and> length l \<le> 64"
      using ls(3) False by simp
    have d: "\<forall>l \<in> set (butlast (take 64 b # ls)). length l = 64"
    proof (cases "ls = []")
      case True then show ?thesis by simp
    next
      case False
      then obtain l where "l \<in> set ls" by (cases ls) auto
      with ls(3) have "concat ls \<noteq> []" by auto
      with ls(2) have "64 < length b" by auto
      then have "length (take 64 b) = 64" by simp
      with ls(4) False show ?thesis by simp
    qed
    from a b c d show ?thesis by blast
  qed
qed

lemma split_nl_nonempty: "split_nl s \<noteq> []"
  by (induction s) (auto split: list.splits)

lemma split_nl_line:
  assumes "10 \<notin> set l"
  shows "split_nl (l @ 10 # rest) = l # split_nl rest"
  using assms
proof (induction l)
  case Nil then show ?case by simp
next
  case (Cons c l)
  then show ?case by (simp split: list.splits)
qed

lemma split_nl_last:
  assumes "10 \<notin> set l"
  shows "split_nl l = [l]"
  using assms by (induction l) (simp_all split: list.splits)

lemma split_nl_lines:
  assumes "\<forall>l \<in> set ls. 10 \<notin> set l"
  shows "split_nl (concat (map (\<lambda>l. l @ [10]) ls) @ rest) = ls @ split_nl rest"
  using assms
proof (induction ls)
  case Nil then show ?case by simp
next
  case (Cons l ls)
  then have "split_nl ((l @ 10 # concat (map (\<lambda>l. l @ [10]) ls)) @ rest)
      = l # split_nl (concat (map (\<lambda>l. l @ [10]) ls) @ rest)"
    using split_nl_line [of l "concat (map (\<lambda>l. l @ [10]) ls) @ rest"] by simp
  with Cons show ?case by simp
qed

lemma readPEM_loop_eq:
  "readPEM_loop a i acc = acc @ concat (take (length a - 2 - i) (drop i a))"
proof (induction "length a - 2 - i" arbitrary: i acc)
  case 0
  then have "\<not> int i < int (length a) - 2" by linarith
  then show ?case using 0 by (subst readPEM_loop.simps) simp
next
  case (Suc x)
  then have lt: "int i < int (length a) - 2" by linarith
  then have i: "i < length a" by linarith
  have "x = length a - 2 - (i + 1)" using Suc.hyps(2) by simp
  then have "readPEM_loop a (i + 1) (acc @ a ! i)
      = (acc @ a ! i) @ concat (take (length a - 2 - (i + 1)) (drop (i + 1) a))"
    by (rule Suc.hyps(1))
  moreover have "take (length a - 2 - i) (drop i a)
      = a ! i # take (length a - 2 - (i + 1)) (drop (i + 1) a)"
  proof -
    have "drop i a = a ! i # drop (i + 1) a" using i by (simp add: Cons_nth_drop_Suc)
    moreover have "length a - 2 - i = Suc (length a - 2 - (i + 1))" using Suc.hyps(2) by simp
    ultimately show ?thesis by simp
  qed
  ultimately show ?case using lt by (subst readPEM_loop.simps) simp
qed

lemma readPEM_loop_lines:
  "readPEM_loop (h # ls @ [f, e]) 1 [] = concat ls"
  by (simp add: readPEM_loop_eq)

subsection \<open>The regular expression on an envelope\<close>

lemma js_append: "js (a @ b) = js a @ js b"
  by (simp add: js_def)

lemma length_js: "length (js a) = length a"
  by (simp add: js_def)

lemma js_dashes: "js ''-----'' = replicate 5 45"
  by (simp add: js_def eval_nat_numeral)

lemma match_crlf_nl: "k r \<Longrightarrow> match_crlf k (10 # r)"
  by (simp add: match_crlf_def split: list.splits)

lemma match_lit_append: "k r \<Longrightarrow> match_lit lit k (lit @ r)"
  by (simp add: match_lit_def)

lemma match_body_skip:
  assumes "\<forall>c \<in> set b. body_char c" and "k r"
  shows "match_body k (b @ r)"
proof -
  have "takeWhile body_char (b @ r) = b @ takeWhile body_char r"
    using assms(1) by (simp add: takeWhile_append2)
  then have "length b \<in> set (rev [0..<Suc (length (takeWhile body_char (b @ r)))])"
    by simp
  moreover have "k (drop (length b) (b @ r))" using assms(2) by simp
  ultimately show ?thesis
    unfolding match_body_def list_ex_iff by blast
qed

lemma try_labels_found:
  assumes "after_label (take n0 s) (drop n0 s)"
    and "\<forall>m. n0 < m \<and> m \<le> n \<longrightarrow> \<not> after_label (take m s) (drop m s)"
  shows "n0 \<le> n \<Longrightarrow> try_labels s n = Some (take n0 s)"
  using assms(2)
proof (induction n)
  case 0
  then have "n0 = 0" by simp
  with assms(1) show ?case by simp
next
  case (Suc n)
  show ?case
  proof (cases "n0 = Suc n")
    case True
    with assms(1) show ?thesis by simp
  next
    case False
    with Suc.prems have le: "n0 \<le> n" by simp
    have "\<not> after_label (take (Suc n) s) (drop (Suc n) s)"
      using Suc.prems False by simp
    moreover have "try_labels s n = Some (take n0 s)"
      using Suc.prems le by (intro Suc.IH) simp_all
    ultimately show ?thesis by simp
  qed
qed

lemma short_dashes:
  assumes "j < 5"
  shows "take 5 (replicate j 45 @ (10 :: 16 word) # x) \<noteq> replicate 5 45"
proof
  assume "take 5 (replicate j 45 @ (10 :: 16 word) # x) = replicate 5 45"
  then have "take 5 (replicate j 45 @ (10 :: 16 word) # x) ! j = replicate 5 (45 :: 16 word) ! j"
    by simp
  then show False using assms by (simp add: nth_append)
qed

lemma after_label_short:
  assumes "j < 5"
  shows "\<not> after_label l (replicate j 45 @ 10 # x)"
  using short_dashes [OF assms] by (simp add: after_label_def match_lit_def js_dashes)

lemma after_label_full:
  assumes "\<forall>c \<in> set body. body_char c"
  shows "after_label T (js ''-----'' @ 10 # body @ 10 # js ''-----END '' @ T @ js ''-----'' @ [10] @ post)"
proof -
  let ?k3 = "match_crlf (\<lambda>r. True)"
  let ?k2 = "match_crlf (match_lit (js ''-----END '' @ T @ js ''-----'') ?k3)"
  have "?k3 ([10] @ post)" by (simp add: match_crlf_nl)
  then have "match_lit (js ''-----END '' @ T @ js ''-----'') ?k3
      ((js ''-----END '' @ T @ js ''-----'') @ [10] @ post)"
    by (rule match_lit_append)
  then have "?k2 (10 # (js ''-----END '' @ T @ js ''-----'') @ [10] @ post)"
    by (rule match_crlf_nl)
  then have "match_body ?k2 (body @ 10 # (js ''-----END '' @ T @ js ''-----'') @ [10] @ post)"
    by (rule match_body_skip [OF assms])
  then have "match_crlf (match_body ?k2) (10 # body @ 10 # (js ''-----END '' @ T @ js ''-----'') @ [10] @ post)"
    by (rule match_crlf_nl)
  then have "match_lit (js ''-----'') (match_crlf (match_body ?k2))
      (js ''-----'' @ 10 # body @ 10 # (js ''-----END '' @ T @ js ''-----'') @ [10] @ post)"
    by (rule match_lit_append)
  then show ?thesis by (simp add: after_label_def)
qed

lemma match_here_envelope:
  assumes T: "\<forall>c \<in> set T. \<not> line_terminator c" and body: "\<forall>c \<in> set body. body_char c"
  shows "match_here (js ''-----BEGIN '' @ T @ js ''-----'' @ 10 # body @ 10 # js ''-----END '' @ T
           @ js ''-----'' @ [10] @ post) = Some T"
proof -
  let ?rest = "body @ 10 # js ''-----END '' @ T @ js ''-----'' @ [10] @ post"
  let ?r = "T @ js ''-----'' @ 10 # ?rest"
  have d: "drop 11 (js ''-----BEGIN '' @ ?r) = ?r" and t: "take 11 (js ''-----BEGIN '' @ ?r) = js ''-----BEGIN ''"
    by (simp_all add: length_js)
  have "\<forall>c \<in> set (js ''-----''). \<not> line_terminator c"
    by (simp add: js_dashes line_terminator_def)
  then have "takeWhile (\<lambda>c. \<not> line_terminator c) ?r = T @ js ''-----''"
    using T takeWhile_append2 [of "T @ js ''-----''" "\<lambda>c. \<not> line_terminator c" "10 # ?rest"]
    by (simp add: line_terminator_def)
  then have len: "length (takeWhile (\<lambda>c. \<not> line_terminator c) ?r) = length T + 5"
    by (simp add: length_js)
  have ok: "after_label (take (length T) ?r) (drop (length T) ?r)"
    using after_label_full [OF body, of T post] by simp
  have no: "\<forall>m. length T < m \<and> m \<le> length T + 5 \<longrightarrow> \<not> after_label (take m ?r) (drop m ?r)"
  proof (intro allI impI)
    fix m assume m: "length T < m \<and> m \<le> length T + 5"
    then have "drop m ?r = drop (m - length T) (replicate 5 45 @ 10 # ?rest)"
      by (simp add: js_dashes)
    also have "\<dots> = replicate (5 - (m - length T)) 45 @ 10 # ?rest"
      using m by simp
    finally have "drop m ?r = replicate (5 - (m - length T)) 45 @ 10 # ?rest" .
    moreover have "5 - (m - length T) < 5" using m by linarith
    ultimately show "\<not> after_label (take m ?r) (drop m ?r)"
      by (simp only: after_label_short not_False_eq_True)
  qed
  have "try_labels ?r (length T + 5) = Some (take (length T) ?r)"
    by (rule try_labels_found [OF ok no]) simp
  then have "try_labels ?r (length T + 5) = Some T" by simp
  then show ?thesis
    unfolding match_here_def by (simp only: d t len) simp
qed

subsection \<open>From a buffer to PEM text and back\<close>

lemma pem_label:
  assumes "T \<in> set [js ''CERTIFICATE'', js ''RSA PRIVATE KEY'', js ''PUBLIC KEY'']"
  shows "T \<noteq> []" "\<forall>c \<in> set T. \<not> line_terminator c" "10 \<notin> set T"
  using assms by (auto simp: js_def line_terminator_def)

lemma base64_chars: "\<forall>c \<in> set (toString_base64 b). body_char c \<and> c \<noteq> 10"
proof (induction b rule: toString_base64.induct)
  case (1 x y z bs)
  then show ?case
    by (simp add: body_char_b64 b64_char_not_nl sextet_bounds)
next
  case (2 x y)
  have "body_char 61" "(61 :: 16 word) \<noteq> 10" by (simp_all add: body_char_def)
  then show ?case
    by (simp add: body_char_b64 b64_char_not_nl sextet_bounds)
next
  case (3 x)
  have "body_char 61" "(61 :: 16 word) \<noteq> 10" by (simp_all add: body_char_def)
  then show ?case
    by (simp add: body_char_b64 b64_char_not_nl sextet_bounds)
next
  case 4
  then show ?case by simp
qed

lemma base64_empty: "toString_base64 b = [] \<longleftrightarrow> b = []"
  by (induction b rule: toString_base64.induct) simp_all

lemma regex_scan_here:
  assumes "match_here s = Some l"
  shows "regex_scan True s = Some l"
  using assms by (cases s) simp_all

lemma toPem_envelope:
  assumes T: "T \<in> set [js ''CERTIFICATE'', js ''RSA PRIVATE KEY'', js ''PUBLIC KEY'']"
    and raw: "\<not> truthy (identifyPemType (Buf b))"
  shows "toPem (Buf b) T = Inr (Str (js ''-----BEGIN '' @ T @ js ''-----'' @ [10]
            @ toPem_loop [] (toString_base64 b) @ js ''-----END '' @ T @ js ''-----'' @ [10]))"
proof -
  have "js ''-----\<newline>'' = js ''-----'' @ [10]" by (simp add: js_def)
  moreover have "toPem_loop (js ''-----BEGIN '' @ T @ js ''-----'' @ [10]) (toString_base64 b)
      = (js ''-----BEGIN '' @ T @ js ''-----'' @ [10]) @ toPem_loop [] (toString_base64 b)"
    by (rule toPem_loop_acc)
  ultimately show ?thesis
    using T raw unfolding toPem_def Let_def by (simp add: js_nl)
qed

lemma envelope_identified:
  assumes T: "\<forall>c \<in> set T. \<not> line_terminator c"
    and ls: "ls \<noteq> []" "\<forall>l \<in> set ls. \<forall>c \<in> set l. body_char c"
  shows "identifyPemType (Str (js ''-----BEGIN '' @ T @ js ''-----'' @ [10]
            @ concat (map (\<lambda>l. l @ [10]) ls) @ js ''-----END '' @ T @ js ''-----'' @ [10])) = Some T"
proof -
  from ls(1) obtain ls' l where sn: "ls = ls' @ [l]"
    by (metis rev_exhaust)
  let ?body = "concat (map (\<lambda>l. l @ [10]) ls') @ l"
  have lines: "concat (map (\<lambda>l. l @ [10]) ls) = ?body @ [10]"
    by (simp add: sn)
  have "body_char 10" by (simp add: body_char_def)
  then have bc: "\<forall>c \<in> set ?body. body_char c"
    using ls(2) by (auto simp: sn)
  have "match_here (js ''-----BEGIN '' @ T @ js ''-----'' @ 10 # ?body @ 10 # js ''-----END '' @ T
           @ js ''-----'' @ [10] @ []) = Some T"
    by (rule match_here_envelope [OF T bc])
  then have "regex_scan True (js ''-----BEGIN '' @ T @ js ''-----'' @ 10 # ?body @ 10 # js ''-----END '' @ T
           @ js ''-----'' @ [10] @ []) = Some T"
    by (rule regex_scan_here)
  then show ?thesis
    by (simp add: identifyPemType_def PEM_REGEX_exec_def lines)
qed

lemma envelope_split:
  assumes T: "10 \<notin> set T" and ls: "\<forall>l \<in> set ls. 10 \<notin> set l"
  shows "split_nl (js ''-----BEGIN '' @ T @ js ''-----'' @ [10]
            @ concat (map (\<lambda>l. l @ [10]) ls) @ js ''-----END '' @ T @ js ''-----'' @ [10])
       = (js ''-----BEGIN '' @ T @ js ''-----'') # ls @ [js ''-----END '' @ T @ js ''-----'', []]"
proof -
  have h: "10 \<notin> set (js ''-----BEGIN '' @ T @ js ''-----'')"
    and f: "10 \<notin> set (js ''-----END '' @ T @ js ''-----'')"
    using T by (simp_all add: js_def)
  have "split_nl ((js ''-----END '' @ T @ js ''-----'') @ 10 # []) = [js ''-----END '' @ T @ js ''-----'', []]"
    using split_nl_line [OF f, of "[]"] by simp
  then have "split_nl (concat (map (\<lambda>l. l @ [10]) ls) @ (js ''-----END '' @ T @ js ''-----'') @ 10 # [])
      = ls @ [js ''-----END '' @ T @ js ''-----'', []]"
    using split_nl_lines [OF ls] by simp
  then have "split_nl ((js ''-----BEGIN '' @ T @ js ''-----'') @ 10 #
        concat (map (\<lambda>l. l @ [10]) ls) @ (js ''-----END '' @ T @ js ''-----'') @ 10 # [])
      = (js ''-----BEGIN '' @ T @ js ''-----'') # ls @ [js ''-----END '' @ T @ js ''-----'', []]"
    using split_nl_line [OF h] by simp
  then show ?thesis by simp
qed



subsection \<open>ASCII text in buffers and strings\<close>

lemma utf8_decode_ascii:
  assumes "\<forall>x \<in> set xs. x < 128"
  shows "utf8_decode 0 0 0x80 0xBF xs = xs"
  using assms by (induction xs) (simp_all add: utf8_lead_def)

lemma utf16_units_ascii:
  assumes "\<forall>x \<in> set xs. x < 128"
  shows "concat (map utf16_units xs) = map of_nat xs"
  using assms by (induction xs) (simp_all add: utf16_units_def)

lemma unat_of_char_byte: "unat (of_char c :: byte) = of_char c"
proof -
  have "unat (of_nat (of_char c) :: byte) = of_char c mod 2 ^ LENGTH(8)"
    by (rule unat_of_nat)
  then show ?thesis by (simp add: of_nat_of_char)
qed

lemma unat_of_char_unit: "unat (of_char c :: 16 word) = of_char c"
proof -
  have "unat (of_nat (of_char c) :: 16 word) = of_char c mod 2 ^ LENGTH(16)"
    by (rule unat_of_nat)
  moreover have "(of_char c :: nat) < 256"
    by (metis of_char_mod_256 mod_less_divisor zero_less_numeral)
  ultimately show ?thesis by (simp add: of_nat_of_char)
qed

lemma toString_utf8_ascii:
  assumes "\<forall>c \<in> set s. (of_char c :: nat) < 128"
  shows "toString_utf8 (map of_char s) = js s"
proof -
  let ?xs = "map (of_char :: char \<Rightarrow> nat) s"
  have m: "map unat (map of_char s :: buffer) = ?xs"
    by (simp add: unat_of_char_byte)
  have a: "\<forall>x \<in> set ?xs. x < 128" using assms by simp
  have "toString_utf8 (map of_char s) = map of_nat ?xs"
    unfolding toString_utf8_def m
    by (simp only: utf8_decode_ascii [OF a] utf16_units_ascii [OF a])
  then show ?thesis by (simp add: js_def of_nat_of_char)
qed

lemma utf8_encode_ascii:
  assumes "\<forall>x \<in> set xs. x < 128"
  shows "utf8_encode xs = map of_nat xs"
  using assms by (induction xs rule: utf8_encode.induct) (simp_all add: utf8_bytes_def)

lemma Buffer_from_utf8_ascii:
  assumes "\<forall>c \<in> set s. (of_char c :: nat) < 128"
  shows "Buffer_from_utf8 (js s) = map of_char s"
proof -
  let ?xs = "map (of_char :: char \<Rightarrow> nat) s"
  have m: "map unat (js s) = ?xs"
    by (simp add: js_def unat_of_char_unit)
  have a: "\<forall>x \<in> set ?xs. x < 128" using assms by simp
  show ?thesis
    unfolding Buffer_from_utf8_def m by (simp add: utf8_encode_ascii [OF a] of_nat_of_char)
qed

lemma utf8_123: "toString_utf8 [1, 2, 3] = [1, 2, 3]"
  by (simp add: toString_utf8_def utf8_lead_def utf16_units_def)

lemma no_pem_123: "identifyPemType (Str [1, 2, 3]) = None"
  by code_simp

lemma raw123: "\<not> truthy (identifyPemType (Buf [1, 2, 3]))"
  using no_pem_123 by (simp add: identifyPemType_def utf8_123 truthy_def)

lemma base64_123: "toString_base64 [1, 2, 3] = js ''AQID''"
  by code_simp


subsection \<open>What a match of the regular expression looks like\<close>

lemma match_crlf_sound:
  assumes "match_crlf k s"
  shows "\<exists>nl r. s = nl @ r \<and> (nl = [10] \<or> nl = [13, 10]) \<and> k r"
proof -
  from assms consider c d r where "s = c # d # r" "c = 13" "d = 10" "k r"
    | c r where "s = c # r" "c = 10" "k r"
    by (auto simp: match_crlf_def split: list.splits)
  then show ?thesis
  proof cases
    case 1
    then have "s = [13, 10] @ r" by simp
    with 1 show ?thesis by blast
  next
    case 2
    then have "s = [10] @ r" by simp
    with 2 show ?thesis by blast
  qed
qed

lemma match_lit_sound:
  assumes "match_lit lit k s"
  shows "\<exists>r. s = lit @ r \<and> k r"
proof -
  from assms have "take (length lit) s = lit" "k (drop (length lit) s)"
    by (simp_all add: match_lit_def)
  then have "s = lit @ drop (length lit) s"
    by (metis append_take_drop_id)
  with \<open>k (drop (length lit) s)\<close> show ?thesis by blast
qed

lemma match_body_sound:
  assumes "match_body k s"
  shows "\<exists>b r. s = b @ r \<and> (\<forall>c \<in> set b. body_char c) \<and> k r"
proof -
  from assms obtain n where m: "n \<in> set (rev [0..<Suc (length (takeWhile body_char s))])"
    and kn: "k (drop n s)"
    unfolding match_body_def list_ex_iff by blast
  from m have "n < Suc (length (takeWhile body_char s))"
    by (simp only: set_rev set_upt atLeastLessThan_iff)
  then have "n \<le> length (takeWhile body_char s)" by (simp only: less_Suc_eq_le)
  note n = this kn
  have "\<forall>c \<in> set (take n s). body_char c"
  proof
    fix c assume "c \<in> set (take n s)"
    then obtain i where i: "i < length (take n s)" "take n s ! i = c"
      by (auto simp: in_set_conv_nth)
    then have il: "i < length (takeWhile body_char s)" using n(1) by simp
    then have "takeWhile body_char s ! i = s ! i" by (rule takeWhile_nth)
    moreover have "take n s ! i = s ! i" using i(1) by simp
    ultimately have "c = takeWhile body_char s ! i" using i(2) by simp
    then have "c \<in> set (takeWhile body_char s)" using il by simp
    then show "body_char c" by (rule set_takeWhileD [THEN conjunct2])
  qed
  moreover have "s = take n s @ drop n s" by simp
  ultimately show ?thesis using n(2) by blast
qed

lemma try_labels_sound:
  assumes "try_labels s n = Some l"
  shows "\<exists>m \<le> n. l = take m s \<and> after_label l (drop m s)"
  using assms
proof (induction n)
  case 0
  then have "after_label [] s" "l = []" by (simp_all split: if_splits)
  then show ?case by simp
next
  case (Suc n)
  show ?case
  proof (cases "after_label (take (Suc n) s) (drop (Suc n) s)")
    case True
    with Suc.prems have "l = take (Suc n) s" by simp
    with True show ?thesis by blast
  next
    case False
    with Suc.prems have "try_labels s n = Some l" by simp
    from Suc.IH [OF this] obtain m where "m \<le> n" "l = take m s \<and> after_label l (drop m s)"
      by blast
    then show ?thesis by (metis le_SucI)
  qed
qed

lemma match_here_sound:
  assumes "match_here s = Some l"
  shows "\<exists>r. s = js ''-----BEGIN '' @ l @ r \<and> after_label l r \<and> (\<forall>c \<in> set l. \<not> line_terminator c)"
proof -
  let ?r = "drop 11 s" and ?n = "length (takeWhile (\<lambda>c. \<not> line_terminator c) (drop 11 s))"
  from assms have b: "take 11 s = js ''-----BEGIN ''" and t: "try_labels ?r ?n = Some l"
    by (simp_all add: match_here_def split: if_splits)
  from try_labels_sound [OF t] obtain m where m: "m \<le> ?n" "l = take m ?r" "after_label l (drop m ?r)"
    by blast
  have "\<forall>c \<in> set l. \<not> line_terminator c"
  proof
    fix c assume "c \<in> set l"
    then obtain i where i: "i < length (take m ?r)" "take m ?r ! i = c"
      using m(2) by (auto simp: in_set_conv_nth)
    then have il: "i < ?n" using m(1) by simp
    then have "takeWhile (\<lambda>c. \<not> line_terminator c) ?r ! i = ?r ! i" by (rule takeWhile_nth)
    moreover have "take m ?r ! i = ?r ! i" using i(1) by simp
    ultimately have "c = takeWhile (\<lambda>c. \<not> line_terminator c) ?r ! i" using i(2) by simp
    then have "c \<in> set (takeWhile (\<lambda>c. \<not> line_terminator c) ?r)" using il by simp
    then show "\<not> line_terminator c" by (rule set_takeWhileD [THEN conjunct2])
  qed
  moreover have "s = take 11 s @ take m ?r @ drop m ?r"
    by (simp only: append_take_drop_id)
  then have "s = js ''-----BEGIN '' @ l @ drop m ?r" using b m(2) by simp
  ultimately show ?thesis using m(3) by blast
qed

lemma regex_scan_sound:
  assumes "regex_scan bol s = Some l"
  shows "\<exists>pre r. s = pre @ r \<and> match_here r = Some l
           \<and> (if pre = [] then bol else line_terminator (last pre))"
  using assms
proof (induction s arbitrary: bol)
  case Nil
  then have "bol" "match_here [] = Some l" by (simp_all split: if_splits)
  then show ?case by (intro exI [of _ "[]"]) simp
next
  case (Cons c cs)
  show ?case
  proof (cases "bol \<and> match_here (c # cs) \<noteq> None")
    case True
    with Cons.prems have "match_here (c # cs) = Some l" by auto
    with True show ?thesis by (intro exI [of _ "[]"] exI [of _ "c # cs"]) simp
  next
    case False
    with Cons.prems have "regex_scan (line_terminator c) cs = Some l"
      by (auto split: if_splits option.splits)
    from Cons.IH [OF this] obtain pre r where p: "cs = pre @ r" "match_here r = Some l"
      "if pre = [] then line_terminator c else line_terminator (last pre)"
      by blast
    then have "c # cs = (c # pre) @ r" "line_terminator (last (c # pre))"
      by (simp_all split: if_splits)
    with p(2) show ?thesis
      by (intro exI [of _ "c # pre"] exI [of _ r]) simp
  qed
qed

lemma after_label_sound:
  assumes "after_label l s"
  shows "\<exists>nl1 body nl2 nl3 post.
      s = js ''-----'' @ nl1 @ body @ nl2 @ js ''-----END '' @ l @ js ''-----'' @ nl3 @ post
    \<and> (nl1 = [10] \<or> nl1 = [13, 10]) \<and> (nl2 = [10] \<or> nl2 = [13, 10])
    \<and> (nl3 = [10] \<or> nl3 = [13, 10]) \<and> (\<forall>c \<in> set body. body_char c)"
proof -
  let ?k3 = "match_crlf (\<lambda>r. True)"
  let ?k2 = "match_crlf (match_lit (js ''-----END '' @ l @ js ''-----'') ?k3)"
  from assms have "match_lit (js ''-----'') (match_crlf (match_body ?k2)) s"
    by (simp add: after_label_def)
  from match_lit_sound [OF this] obtain r1 where r1: "s = js ''-----'' @ r1" "match_crlf (match_body ?k2) r1"
    by blast
  from match_crlf_sound [OF r1(2)] obtain nl1 r2 where r2: "r1 = nl1 @ r2" "nl1 = [10] \<or> nl1 = [13, 10]"
    "match_body ?k2 r2"
    by blast
  from match_body_sound [OF r2(3)] obtain body r3 where r3: "r2 = body @ r3" "\<forall>c \<in> set body. body_char c"
    "?k2 r3"
    by blast
  from match_crlf_sound [OF r3(3)] obtain nl2 r4 where r4: "r3 = nl2 @ r4" "nl2 = [10] \<or> nl2 = [13, 10]"
    "match_lit (js ''-----END '' @ l @ js ''-----'') ?k3 r4"
    by blast
  from match_lit_sound [OF r4(3)] obtain r5 where r5: "r4 = (js ''-----END '' @ l @ js ''-----'') @ r5" "?k3 r5"
    by blast
  from match_crlf_sound [OF r5(2)] obtain nl3 post where r6: "r5 = nl3 @ post" "nl3 = [10] \<or> nl3 = [13, 10]"
    by blast
  have "s = js ''-----'' @ nl1 @ body @ nl2 @ js ''-----END '' @ l @ js ''-----'' @ nl3 @ post"
    using r1(1) r2(1) r3(1) r4(1) r5(1) r6(1) by simp
  with r2(2) r3(2) r4(2) r6(2) show ?thesis by blast
qed

text \<open>
  C8, for the buffers on which it holds. Let \<open>T\<close> be one of the three labels and \<open>b\<close> a
  buffer that is not empty and is not itself identified as PEM. Then \<open>toPem(b, T)\<close> is
  the line \<open>-----BEGIN T-----\<close>, the base64 text of \<open>b\<close> in lines of 64 characters (the
  last one may be shorter) and the line \<open>-----END T-----\<close>, each line ended by a newline;
  this text is identified as PEM of type \<open>T\<close>, \<open>toPem\<close> returns it unchanged, and
  \<open>readPEM\<close> of it is \<open>b\<close>. \<open>readPEM\<close> of \<open>b\<close> itself is \<open>b\<close>.
\<close>

theorem toPem_readPEM_roundtrip:
  assumes T: "T \<in> set [js ''CERTIFICATE'', js ''RSA PRIVATE KEY'', js ''PUBLIC KEY'']"
    and ne: "b \<noteq> []"
    and raw: "\<not> truthy (identifyPemType (Buf b))"
  shows "\<exists>ls pem.
      toPem (Buf b) T = Inr (Str pem)
    \<and> pem = js ''-----BEGIN '' @ T @ js ''-----'' @ [10] @ concat (map (\<lambda>l. l @ [10]) ls)
             @ js ''-----END '' @ T @ js ''-----'' @ [10]
    \<and> concat ls = toString_base64 b
    \<and> (\<forall>l \<in> set ls. l \<noteq> [] \<and> length l \<le> 64)
    \<and> (\<forall>l \<in> set (butlast ls). length l = 64)
    \<and> identifyPemType (Str pem) = Some T
    \<and> toPem (Str pem) T = Inr (Str pem)
    \<and> readPEM (Str pem) = b
    \<and> readPEM (Buf b) = b"
proof -
  obtain ls where ls: "toPem_loop [] (toString_base64 b) = concat (map (\<lambda>l. l @ [10]) ls)"
    "concat ls = toString_base64 b" "\<forall>l \<in> set ls. l \<noteq> [] \<and> length l \<le> 64"
    "\<forall>l \<in> set (butlast ls). length l = 64"
    using toPem_loop_lines by blast
  define pem where "pem = js ''-----BEGIN '' @ T @ js ''-----'' @ [10] @ concat (map (\<lambda>l. l @ [10]) ls)
             @ js ''-----END '' @ T @ js ''-----'' @ [10]"
  have chars: "\<forall>l \<in> set ls. \<forall>c \<in> set l. body_char c \<and> c \<noteq> 10"
  proof (intro ballI)
    fix l c assume "l \<in> set ls" "c \<in> set l"
    then have "c \<in> set (concat ls)" by auto
    then show "body_char c \<and> c \<noteq> 10" using base64_chars ls(2) by simp
  qed
  have "toString_base64 b \<noteq> []" using ne by (simp add: base64_empty)
  then have lne: "ls \<noteq> []" using ls(2) by auto
  have a: "toPem (Buf b) T = Inr (Str pem)"
    unfolding pem_def using toPem_envelope [OF T raw] by (simp only: ls(1))
  have i: "identifyPemType (Str pem) = Some T"
    unfolding pem_def using chars by (intro envelope_identified [OF pem_label(2) [OF T] lne]) blast
  then have tr: "truthy (identifyPemType (Str pem))"
    using pem_label(1) [OF T] by (simp add: truthy_def)
  then have p: "toPem (Str pem) T = Inr (Str pem)"
    by (simp add: toPem_def)
  have "\<forall>l \<in> set ls. 10 \<notin> set l" using chars by blast
  then have sp: "split_nl pem = (js ''-----BEGIN '' @ T @ js ''-----'') # ls @ [js ''-----END '' @ T @ js ''-----'', []]"
    unfolding pem_def by (rule envelope_split [OF pem_label(3) [OF T]])
  have r: "readPEM (Str pem) = b"
    using tr readPEM_loop_lines [of "js ''-----BEGIN '' @ T @ js ''-----''" ls
        "js ''-----END '' @ T @ js ''-----''" "[]"]
    by (simp add: readPEM_def Let_def sp ls(2) base64_roundtrip)
  have q: "readPEM (Buf b) = b"
    using raw by (simp add: readPEM_def)
  show ?thesis
    using a ls(2) ls(3) ls(4) i p r q pem_def by blast
qed

theorem toPem_readPEM_roundtrip_witness:
  "js ''CERTIFICATE'' \<in> set [js ''CERTIFICATE'', js ''RSA PRIVATE KEY'', js ''PUBLIC KEY'']
   \<and> \<not> truthy (identifyPemType (Buf [1, 2, 3]))
   \<and> toPem (Buf [1, 2, 3]) (js ''CERTIFICATE'')
       = Inr (Str (js ''-----BEGIN CERTIFICATE-----\<newline>AQID\<newline>-----END CERTIFICATE-----\<newline>''))
   \<and> readPEM (Str (js ''-----BEGIN CERTIFICATE-----\<newline>AQID\<newline>-----END CERTIFICATE-----\<newline>''))
       = [1, 2, 3]"
proof -
  let ?T = "js ''CERTIFICATE''"
  have T: "?T \<in> set [js ''CERTIFICATE'', js ''RSA PRIVATE KEY'', js ''PUBLIC KEY'']"
    by simp
  have ne: "[1, 2, 3] \<noteq> ([] :: buffer)" by simp
  from toPem_readPEM_roundtrip [OF T ne raw123]
  obtain ls pem where a: "toPem (Buf [1, 2, 3]) ?T = Inr (Str pem)"
    and p: "pem = js ''-----BEGIN '' @ ?T @ js ''-----'' @ [10] @ concat (map (\<lambda>l. l @ [10]) ls)
             @ js ''-----END '' @ ?T @ js ''-----'' @ [10]"
    and c: "concat ls = toString_base64 [1, 2, 3]"
    and l: "\<forall>l \<in> set ls. l \<noteq> [] \<and> length l \<le> 64" "\<forall>l \<in> set (butlast ls). length l = 64"
    and r: "readPEM (Str pem) = [1, 2, 3]"
    by blast
  have "ls = [js ''AQID'']"
  proof (cases ls)
    case Nil
    with c base64_123 show ?thesis by (simp add: js_def)
  next
    case (Cons x xs)
    show ?thesis
    proof (cases xs)
      case Nil
      with Cons c base64_123 show ?thesis by simp
    next
      case (Cons y ys)
      with \<open>ls = x # xs\<close> l(2) have "length x = 64" by simp
      moreover have "length (concat ls) = 4" using c base64_123 by (simp add: js_def)
      ultimately show ?thesis using \<open>ls = x # xs\<close> by simp
    qed
  qed
  with p have "pem = js ''-----BEGIN CERTIFICATE-----\<newline>AQID\<newline>-----END CERTIFICATE-----\<newline>''"
    by (simp add: js_def)
  with a r T raw123 show ?thesis by blast
qed

subsection \<open>What \<open>identifyPemType\<close> takes for PEM\<close>

lemma identifyPemType_sound:
  assumes "identifyPemType raw_key = Some label"
  shows "\<exists>pre nl1 body nl2 nl3 post.
      (case raw_key of Buf b \<Rightarrow> toString_utf8 b | Str s \<Rightarrow> s)
        = pre @ js ''-----BEGIN '' @ label @ js ''-----'' @ nl1 @ body @ nl2
            @ js ''-----END '' @ label @ js ''-----'' @ nl3 @ post
    \<and> (pre = [] \<or> line_terminator (last pre))
    \<and> (\<forall>c \<in> set label. \<not> line_terminator c)
    \<and> (nl1 = [10] \<or> nl1 = [13, 10]) \<and> (nl2 = [10] \<or> nl2 = [13, 10])
    \<and> (nl3 = [10] \<or> nl3 = [13, 10]) \<and> (\<forall>c \<in> set body. body_char c)"
proof -
  let ?text = "case raw_key of Buf b \<Rightarrow> toString_utf8 b | Str s \<Rightarrow> s"
  from assms have "regex_scan True ?text = Some label"
    by (simp add: identifyPemType_def PEM_REGEX_exec_def)
  from regex_scan_sound [OF this] obtain pre r where p: "?text = pre @ r" "match_here r = Some label"
    "pre = [] \<or> line_terminator (last pre)"
    by (metis (full_types))
  from match_here_sound [OF p(2)] obtain r' where r': "r = js ''-----BEGIN '' @ label @ r'"
    "after_label label r'" "\<forall>c \<in> set label. \<not> line_terminator c"
    by blast
  from after_label_sound [OF r'(2)] obtain nl1 body nl2 nl3 post where
    a: "r' = js ''-----'' @ nl1 @ body @ nl2 @ js ''-----END '' @ label @ js ''-----'' @ nl3 @ post"
    "nl1 = [10] \<or> nl1 = [13, 10]" "nl2 = [10] \<or> nl2 = [13, 10]"
    "nl3 = [10] \<or> nl3 = [13, 10]" "\<forall>c \<in> set body. body_char c"
    by blast
  have "?text = pre @ js ''-----BEGIN '' @ label @ js ''-----'' @ nl1 @ body @ nl2
            @ js ''-----END '' @ label @ js ''-----'' @ nl3 @ post"
    using p(1) r'(1) a(1) by simp
  with p(3) r'(3) a(2-5) show ?thesis by blast
qed

lemma utf8_Nil: "toString_utf8 [] = []"
  by (simp add: toString_utf8_def)

lemma raw_empty: "\<not> truthy (identifyPemType (Buf []))"
  by (simp add: identifyPemType_def utf8_Nil PEM_REGEX_exec_def match_here_def js_def truthy_def)

lemma toPem_empty:
  assumes "T \<in> set [js ''CERTIFICATE'', js ''RSA PRIVATE KEY'', js ''PUBLIC KEY'']"
  shows "toPem (Buf []) T
     = Inr (Str (js ''-----BEGIN '' @ T @ js ''-----'' @ [10] @ js ''-----END '' @ T @ js ''-----'' @ [10]))"
  using toPem_envelope [OF assms raw_empty] by (simp add: toPem_loop_Nil)

lemma empty_envelope_not_identified:
  assumes "T \<in> set [js ''CERTIFICATE'', js ''RSA PRIVATE KEY'', js ''PUBLIC KEY'']"
  shows "identifyPemType (Str (js ''-----BEGIN '' @ T @ js ''-----'' @ [10]
            @ js ''-----END '' @ T @ js ''-----'' @ [10])) = None"
proof -
  from assms consider "T = js ''CERTIFICATE''" | "T = js ''RSA PRIVATE KEY''" | "T = js ''PUBLIC KEY''"
    by auto
  then show ?thesis
  proof cases
    case 1
    have "identifyPemType (Str (js ''-----BEGIN '' @ js ''CERTIFICATE'' @ js ''-----'' @ [10]
            @ js ''-----END '' @ js ''CERTIFICATE'' @ js ''-----'' @ [10])) = None"
      by code_simp
    with 1 show ?thesis by simp
  next
    case 2
    have "identifyPemType (Str (js ''-----BEGIN '' @ js ''RSA PRIVATE KEY'' @ js ''-----'' @ [10]
            @ js ''-----END '' @ js ''RSA PRIVATE KEY'' @ js ''-----'' @ [10])) = None"
      by code_simp
    with 2 show ?thesis by simp
  next
    case 3
    have "identifyPemType (Str (js ''-----BEGIN '' @ js ''PUBLIC KEY'' @ js ''-----'' @ [10]
            @ js ''-----END '' @ js ''PUBLIC KEY'' @ js ''-----'' @ [10])) = None"
      by code_simp
    with 3 show ?thesis by simp
  qed
qed


lemma pem_123_identified:
  "identifyPemType (Str (js ''-----BEGIN CERTIFICATE-----\<newline>AQID\<newline>-----END CERTIFICATE-----\<newline>''))
     = Some (js ''CERTIFICATE'')"
  by code_simp

text \<open>
  C10. If \<open>identifyPemType\<close> returns a label, the text holds, from the start of a line
  on, the header \<open>-----BEGIN label-----\<close>, a line end, a body of characters of the
  class, a second line end, and the footer \<open>-----END label-----\<close> with its line end: two
  line ends lie between header and footer, so that the body region has at least one line
  (which may be empty). For the empty buffer and each of the three labels \<open>T\<close>, \<open>toPem\<close>
  returns the header line followed at once by the footer line, and \<open>identifyPemType\<close>
  returns nothing on that text.
\<close>

theorem identifyPemType_needs_body_line:
  "(identifyPemType raw_key = Some label \<longrightarrow>
      (\<exists>pre nl1 body nl2 nl3 post.
          (case raw_key of Buf b \<Rightarrow> toString_utf8 b | Str s \<Rightarrow> s)
            = pre @ js ''-----BEGIN '' @ label @ js ''-----'' @ nl1 @ body @ nl2
                @ js ''-----END '' @ label @ js ''-----'' @ nl3 @ post
        \<and> (pre = [] \<or> line_terminator (last pre))
        \<and> (\<forall>c \<in> set label. \<not> line_terminator c)
        \<and> (nl1 = [10] \<or> nl1 = [13, 10]) \<and> (nl2 = [10] \<or> nl2 = [13, 10])
        \<and> (nl3 = [10] \<or> nl3 = [13, 10]) \<and> (\<forall>c \<in> set body. body_char c)))
   \<and> (T \<in> set [js ''CERTIFICATE'', js ''RSA PRIVATE KEY'', js ''PUBLIC KEY''] \<longrightarrow>
        toPem (Buf []) T
          = Inr (Str (js ''-----BEGIN '' @ T @ js ''-----'' @ [10] @ js ''-----END '' @ T @ js ''-----'' @ [10]))
      \<and> identifyPemType (Str (js ''-----BEGIN '' @ T @ js ''-----'' @ [10]
            @ js ''-----END '' @ T @ js ''-----'' @ [10])) = None)"
  using identifyPemType_sound [of raw_key label] toPem_empty [of T] empty_envelope_not_identified [of T]
  by blast


theorem identifyPemType_needs_body_line_witness:
  "identifyPemType (Str (js ''-----BEGIN CERTIFICATE-----\<newline>AQID\<newline>-----END CERTIFICATE-----\<newline>''))
     = Some (js ''CERTIFICATE'')
   \<and> js ''CERTIFICATE'' \<in> set [js ''CERTIFICATE'', js ''RSA PRIVATE KEY'', js ''PUBLIC KEY'']
   \<and> toPem (Buf []) (js ''CERTIFICATE'')
       = Inr (Str (js ''-----BEGIN CERTIFICATE-----\<newline>-----END CERTIFICATE-----\<newline>''))
   \<and> identifyPemType (Str (js ''-----BEGIN CERTIFICATE-----\<newline>-----END CERTIFICATE-----\<newline>''))
       = None"
proof -
  have e: "js ''-----BEGIN '' @ js ''CERTIFICATE'' @ js ''-----'' @ [10]
             @ js ''-----END '' @ js ''CERTIFICATE'' @ js ''-----'' @ [10]
         = js ''-----BEGIN CERTIFICATE-----\<newline>-----END CERTIFICATE-----\<newline>''"
    by (simp add: js_def)
  have T: "js ''CERTIFICATE'' \<in> set [js ''CERTIFICATE'', js ''RSA PRIVATE KEY'', js ''PUBLIC KEY'']"
    by simp
  from identifyPemType_needs_body_line
    [of "Str (js ''-----BEGIN CERTIFICATE-----\<newline>AQID\<newline>-----END CERTIFICATE-----\<newline>'')"
        "js ''CERTIFICATE''" "js ''CERTIFICATE''"]
  have "toPem (Buf []) (js ''CERTIFICATE'')
          = Inr (Str (js ''-----BEGIN '' @ js ''CERTIFICATE'' @ js ''-----'' @ [10]
                       @ js ''-----END '' @ js ''CERTIFICATE'' @ js ''-----'' @ [10]))
      \<and> identifyPemType (Str (js ''-----BEGIN '' @ js ''CERTIFICATE'' @ js ''-----'' @ [10]
            @ js ''-----END '' @ js ''CERTIFICATE'' @ js ''-----'' @ [10])) = None"
    using T by blast
  then show ?thesis
    using pem_123_identified T by (simp only: e simp_thms)
qed

subsection \<open>Buffers that do not come back\<close>

lemma ascii_envelope:
  "\<forall>c \<in> set ''-----BEGIN CERTIFICATE-----\<newline>-----END CERTIFICATE-----\<newline>''. (of_char c :: nat) < 128"
  "\<forall>c \<in> set ''-----BEGIN CERTIFICATE-----\<newline>AAAA\<newline>-----END CERTIFICATE-----\<newline>''. (of_char c :: nat) < 128"
  by simp_all

lemma pem_text_identified:
  "identifyPemType (Buf pem_text_bytes) = Some (js ''CERTIFICATE'')"
proof -
  have "toString_utf8 pem_text_bytes
      = js ''-----BEGIN CERTIFICATE-----\<newline>AAAA\<newline>-----END CERTIFICATE-----\<newline>''"
    unfolding pem_text_bytes_def by (rule toString_utf8_ascii [OF ascii_envelope(2)])
  moreover have "identifyPemType (Str (js ''-----BEGIN CERTIFICATE-----\<newline>AAAA\<newline>-----END CERTIFICATE-----\<newline>''))
      = Some (js ''CERTIFICATE'')"
    by code_simp
  ultimately show ?thesis
    by (simp add: identifyPemType_def)
qed

lemma pem_text_read: "readPEM (Buf pem_text_bytes) = [0, 0, 0]"
proof -
  have u: "toString_utf8 pem_text_bytes
      = js ''-----BEGIN CERTIFICATE-----\<newline>AAAA\<newline>-----END CERTIFICATE-----\<newline>''"
    unfolding pem_text_bytes_def by (rule toString_utf8_ascii [OF ascii_envelope(2)])
  have t: "truthy (identifyPemType (Buf pem_text_bytes))"
    by (simp add: pem_text_identified truthy_def js_def)
  have s: "split_nl (js ''-----BEGIN CERTIFICATE-----\<newline>AAAA\<newline>-----END CERTIFICATE-----\<newline>'')
      = [js ''-----BEGIN CERTIFICATE-----'', js ''AAAA'', js ''-----END CERTIFICATE-----'', []]"
    by code_simp
  have l: "readPEM_loop [js ''-----BEGIN CERTIFICATE-----'', js ''AAAA'', js ''-----END CERTIFICATE-----'', []] 1 []
      = js ''AAAA''"
    using readPEM_loop_lines [of "js ''-----BEGIN CERTIFICATE-----''" "[js ''AAAA'']"
        "js ''-----END CERTIFICATE-----''" "[]"]
    by simp
  have d: "Buffer_from_base64 (js ''AAAA'') = [0, 0, 0]"
    by (simp add: Buffer_from_base64_def js_def b64_value_def List.map_filter_simps Let_def)
  show ?thesis
    using t by (simp add: readPEM_def Let_def u s l [unfolded One_nat_def] d)
qed

text \<open>
  C8 as the claim words it fails on two kinds of buffer. For the empty buffer \<open>toPem\<close>
  returns the header line and the footer line, which \<open>readPEM\<close> does not take for PEM:
  it returns the bytes of that text. A buffer that holds a PEM text is returned by
  \<open>toPem\<close> as it is, and \<open>readPEM\<close> returns the bytes that its body encodes, not the
  buffer.
\<close>

theorem toPem_readPEM_not_inverse:
  "toPem (Buf []) (js ''CERTIFICATE'')
     = Inr (Str (js ''-----BEGIN CERTIFICATE-----\<newline>-----END CERTIFICATE-----\<newline>''))
   \<and> readPEM (Str (js ''-----BEGIN CERTIFICATE-----\<newline>-----END CERTIFICATE-----\<newline>''))
     = map of_char ''-----BEGIN CERTIFICATE-----\<newline>-----END CERTIFICATE-----\<newline>''
   \<and> map of_char ''-----BEGIN CERTIFICATE-----\<newline>-----END CERTIFICATE-----\<newline>'' \<noteq> ([] :: buffer)
   \<and> toPem (Buf pem_text_bytes) (js ''CERTIFICATE'') = Inr (Buf pem_text_bytes)
   \<and> readPEM (Buf pem_text_bytes) = [0, 0, 0]
   \<and> pem_text_bytes \<noteq> [0, 0, 0]"
proof -
  have e: "js ''-----BEGIN '' @ js ''CERTIFICATE'' @ js ''-----'' @ [10]
             @ js ''-----END '' @ js ''CERTIFICATE'' @ js ''-----'' @ [10]
         = js ''-----BEGIN CERTIFICATE-----\<newline>-----END CERTIFICATE-----\<newline>''"
    by (simp add: js_def)
  have T: "js ''CERTIFICATE'' \<in> set [js ''CERTIFICATE'', js ''RSA PRIVATE KEY'', js ''PUBLIC KEY'']"
    by simp
  have a: "toPem (Buf []) (js ''CERTIFICATE'')
     = Inr (Str (js ''-----BEGIN CERTIFICATE-----\<newline>-----END CERTIFICATE-----\<newline>''))"
    using toPem_empty [OF T] by (simp only: e)
  have n: "identifyPemType (Str (js ''-----BEGIN CERTIFICATE-----\<newline>-----END CERTIFICATE-----\<newline>'')) = None"
    using empty_envelope_not_identified [OF T] by (simp only: e)
  have b: "readPEM (Str (js ''-----BEGIN CERTIFICATE-----\<newline>-----END CERTIFICATE-----\<newline>''))
     = map of_char ''-----BEGIN CERTIFICATE-----\<newline>-----END CERTIFICATE-----\<newline>''"
    using Buffer_from_utf8_ascii [OF ascii_envelope(1)]
    by (simp add: readPEM_def n truthy_def)
  have c: "map of_char ''-----BEGIN CERTIFICATE-----\<newline>-----END CERTIFICATE-----\<newline>'' \<noteq> ([] :: buffer)"
    by simp
  have d: "toPem (Buf pem_text_bytes) (js ''CERTIFICATE'') = Inr (Buf pem_text_bytes)"
    by (simp add: toPem_def pem_text_identified truthy_def js_def)
  have f: "pem_text_bytes \<noteq> [0, 0, 0]"
    by (simp add: pem_text_bytes_def)
  from a b c d pem_text_read f show ?thesis
    by (intro conjI)
qed


section \<open>Proofs: certificates\<close>







end
